theory Spec2Isabelle
  imports Complex_Main
begin

section \<open>Values, failures and array access\<close>

text \<open>
  The board of \<^verbatim>\<open>board.py\<close> is a one-dimensional numpy array of integers. A Python
  exception is a value of the type \<open>failure\<close>; an operation that can raise returns
  \<open>failure + 'a\<close>, with \<open>Inl\<close> for the exception. \<open>Diverges\<close> is the outcome of a
  \<^verbatim>\<open>while\<close> loop that never leaves: the stride loops of the source spin forever
  exactly when their stride is zero and the cell they look at matches.
\<close>

datatype failure =
  AssertionError | IndexError | AttributeError | NameError | ValueError | TypeError
  | ZeroDivisionError | RecursionError | Diverges

text \<open>
  Modelled from the spec: the colour constants of \<^verbatim>\<open>board_util\<close>, which is not among the
  sources. They are four distinct integers; \<^verbatim>\<open>BlockOpenFour\<close> tests a cell against the
  literal \<^verbatim>\<open>0\<close> where it means EMPTY.
\<close>

definition EMPTY :: int where "EMPTY = 0"
definition BLACK :: int where "BLACK = 1"
definition WHITE :: int where "WHITE = 2"
definition BORDER :: int where "BORDER = 3"

lemmas color_defs = EMPTY_def BLACK_def WHITE_def BORDER_def

text \<open>
  Modelled from the spec: \<^verbatim>\<open>is_black_white\<close> and \<^verbatim>\<open>GoBoardUtil.opponent\<close> of
  \<^verbatim>\<open>board_util\<close> (colour negation; \<^verbatim>\<open>BlockWin\<close> writes the same as
  \<^verbatim>\<open>WHITE + BLACK - self.current_player\<close>).
\<close>

definition is_black_white :: "int \<Rightarrow> bool" where
  "is_black_white color \<longleftrightarrow> color = BLACK \<or> color = WHITE"

definition opponent :: "int \<Rightarrow> int" where
  "opponent color = WHITE + BLACK - color"

text \<open>
  Reading \<^verbatim>\<open>a[i]\<close>: an index from \<open>-len\<close> to \<open>-1\<close> counts from the end, any other
  index outside the array raises IndexError. \<^verbatim>\<open>a[i] = v\<close> follows the same rule.
\<close>

definition get :: "int list \<Rightarrow> int \<Rightarrow> failure + int" where
  "get a i =
     (let n = int (length a)
      in if 0 \<le> i \<and> i < n then Inr (a ! nat i)
         else if - n \<le> i \<and> i < 0 then Inr (a ! nat (n + i))
         else Inl IndexError)"

definition put :: "int list \<Rightarrow> int \<Rightarrow> int \<Rightarrow> failure + int list" where
  "put a i v =
     (let n = int (length a)
      in if 0 \<le> i \<and> i < n then Inr (a[nat i := v])
         else if - n \<le> i \<and> i < 0 then Inr (a[nat (n + i) := v])
         else Inl IndexError)"

text \<open>
  Modelled from the spec: \<^verbatim>\<open>where1d\<close> of \<^verbatim>\<open>board_util\<close> (boolean-mask-to-index
  extraction), applied to the mask \<^verbatim>\<open>board == v\<close>: the indices of the cells equal to
  \<open>v\<close>, in increasing order.
\<close>

definition where1d_eq :: "int list \<Rightarrow> int \<Rightarrow> int list" where
  "where1d_eq a v = map int (filter (\<lambda>j. a ! j = v) [0..<length a])"

section \<open>The board\<close>

text \<open>
  A move is the PASS sentinel or a point, an index into the array. The attributes
  \<^verbatim>\<open>rows\<close>, \<^verbatim>\<open>cols\<close> and \<^verbatim>\<open>diags\<close> exist only once
  \<^verbatim>\<open>calculate_rows_cols_diags\<close> has assigned them: \<open>None\<close> is the missing attribute.
\<close>

datatype move = PASS | Pt int

record GoBoard =
  bsize :: int
  NS :: int
  WE :: int
  ko_recapture :: "int option"
  last_move :: "move option"
  last2_move :: "move option"
  current_player :: int
  maxpoint :: int
  board :: "int list"
  rows :: "int list list option"
  cols :: "int list list option"
  diags :: "int list list option"

definition get_color :: "GoBoard \<Rightarrow> int \<Rightarrow> failure + int" where
  "get_color b point = get (board b) point"

definition get_empty_points :: "GoBoard \<Rightarrow> int list" where
  "get_empty_points b = where1d_eq (board b) EMPTY"

definition row_start :: "GoBoard \<Rightarrow> int \<Rightarrow> failure + int" where
  "row_start b row =
     (if \<not> row \<ge> 1 then Inl AssertionError
      else if \<not> row \<le> bsize b then Inl AssertionError
      else Inr (row * NS b + 1))"

text \<open>
  \<^verbatim>\<open>play_move\<close> returns whether the move was legal, and the board after the call. The
  capture, suicide and ko code of the source is commented out and has no counterpart here.
\<close>

definition play_move :: "GoBoard \<Rightarrow> move \<Rightarrow> int \<Rightarrow> failure + (bool \<times> GoBoard)" where
  "play_move b point color =
     (if \<not> is_black_white color then Inl AssertionError
      else case point of
        PASS \<Rightarrow>
          Inr (True, b\<lparr>ko_recapture := None,
                       current_player := opponent color,
                       last2_move := last_move b,
                       last_move := Some PASS\<rparr>)
      | Pt p \<Rightarrow>
          (case get (board b) p of
             Inl e \<Rightarrow> Inl e
           | Inr v \<Rightarrow>
               if v \<noteq> EMPTY then Inr (False, b)
               else (case put (board b) p color of
                       Inl e \<Rightarrow> Inl e
                     | Inr a \<Rightarrow>
                         Inr (True, b\<lparr>board := a,
                                      current_player := opponent color,
                                      last2_move := last_move b,
                                      last_move := Some (Pt p)\<rparr>))))"

section \<open>Construction\<close>

text \<open>
  \<^verbatim>\<open>a[lo:hi] = v\<close> on a numpy array: a negative bound counts from the end, and both
  bounds are clamped to the array.
\<close>

definition slice_bound :: "int \<Rightarrow> int \<Rightarrow> int" where
  "slice_bound n k = (if k < 0 then max 0 (k + n) else min k n)"

definition fill_slice :: "int list \<Rightarrow> int \<Rightarrow> int \<Rightarrow> int \<Rightarrow> int list" where
  "fill_slice a lo hi v =
     (let n = int (length a); l = slice_bound n lo; h = slice_bound n hi
      in map (\<lambda>j. if l \<le> int j \<and> int j < h then v else a ! j) [0..<length a])"

text \<open>\<^verbatim>\<open>range(a, b)\<close> and \<^verbatim>\<open>range(a, b, st)\<close>; the latter raises ValueError for a zero step.\<close>

definition range2 :: "int \<Rightarrow> int \<Rightarrow> int list" where
  "range2 a b = [a..b - 1]"

function range_step :: "int \<Rightarrow> int \<Rightarrow> int \<Rightarrow> int list" where
  "range_step a b st =
     (if 0 < st \<and> a < b then a # range_step (a + st) b st
      else if st < 0 \<and> b < a then a # range_step (a + st) b st
      else [])"
  by pat_completeness auto
termination
  by (relation "measure (\<lambda>(a, b, st). nat (if 0 < st then b - a else a - b))") auto

declare range_step.simps [simp del]

definition range3 :: "int \<Rightarrow> int \<Rightarrow> int \<Rightarrow> failure + int list" where
  "range3 a b st = (if st = 0 then Inl ValueError else Inr (range_step a b st))"

text \<open>The loop of \<^verbatim>\<open>_initialize_empty_points\<close> over the rows still to fill.\<close>

fun initialize_rows :: "GoBoard \<Rightarrow> int list \<Rightarrow> int list \<Rightarrow> failure + int list" where
  "initialize_rows b a [] = Inr a"
| "initialize_rows b a (row # rest) =
     (case row_start b row of
        Inl e \<Rightarrow> Inl e
      | Inr start \<Rightarrow> initialize_rows b (fill_slice a start (start + bsize b) EMPTY) rest)"

definition initialize_empty_points :: "GoBoard \<Rightarrow> int list \<Rightarrow> failure + int list" where
  "initialize_empty_points b a = initialize_rows b a (range2 1 (bsize b + 1))"

text \<open>
  The loop \<^verbatim>\<open>while self.get_color(pt) == EMPTY: diag.append(pt); pt += st\<close> of
  \<^verbatim>\<open>calculate_rows_cols_diags\<close>, returning the points appended.
\<close>

function diag_walk :: "int list \<Rightarrow> int \<Rightarrow> int \<Rightarrow> failure + int list" where
  "diag_walk a st pt =
     (case get a pt of
        Inl e \<Rightarrow> Inl e
      | Inr v \<Rightarrow>
          if v \<noteq> EMPTY then Inr []
          else if st = 0 then Inl Diverges
          else (case diag_walk a st (pt + st) of
                  Inl e \<Rightarrow> Inl e
                | Inr l \<Rightarrow> Inr (pt # l)))"
  by pat_completeness auto
termination
  by (relation "measure (\<lambda>(a, st, pt).
        nat (if 0 < st then int (length a) - pt else pt + int (length a) + 1))")
     (auto simp: get_def Let_def split: if_splits)

declare diag_walk.simps [simp del]

text \<open>The loop over the rows, building \<^verbatim>\<open>self.rows\<close> and \<^verbatim>\<open>self.cols\<close>.\<close>

fun rows_cols_loop ::
  "GoBoard \<Rightarrow> int list \<Rightarrow> int list list \<Rightarrow> int list list
     \<Rightarrow> failure + (int list list \<times> int list list)" where
  "rows_cols_loop b [] rs cs = Inr (rs, cs)"
| "rows_cols_loop b (i # rest) rs cs =
     (case row_start b i of
        Inl e \<Rightarrow> Inl e
      | Inr start \<Rightarrow>
          let current_row = range2 start (start + bsize b)
          in (case row_start b 1 of
                Inl e \<Rightarrow> Inl e
              | Inr s1 \<Rightarrow>
                  let start' = s1 + i - 1
                  in (case row_start b (bsize b) of
                        Inl e \<Rightarrow> Inl e
                      | Inr sn \<Rightarrow>
                          (case range3 start' (sn + i) (NS b) of
                             Inl e \<Rightarrow> Inl e
                           | Inr current_col \<Rightarrow>
                               rows_cols_loop b rest (rs @ [current_row]) (cs @ [current_col])))))"

text \<open>
  The first and the third diagonal loop walk one diagonal from each starting point, the
  second loop walks two; a diagonal of fewer than five points is dropped.
\<close>

fun diag_loop_one ::
  "int list \<Rightarrow> int \<Rightarrow> int list \<Rightarrow> int list list \<Rightarrow> failure + int list list" where
  "diag_loop_one a st [] ds = Inr ds"
| "diag_loop_one a st (i # rest) ds =
     (case diag_walk a st i of
        Inl e \<Rightarrow> Inl e
      | Inr diag \<Rightarrow>
          diag_loop_one a st rest (if length diag \<ge> 5 then ds @ [diag] else ds))"

fun diag_loop_two ::
  "int list \<Rightarrow> int \<Rightarrow> int \<Rightarrow> int list \<Rightarrow> int list list \<Rightarrow> failure + int list list" where
  "diag_loop_two a st_SE st_NE [] ds = Inr ds"
| "diag_loop_two a st_SE st_NE (i # rest) ds =
     (case diag_walk a st_SE i of
        Inl e \<Rightarrow> Inl e
      | Inr diag_SE \<Rightarrow>
          (case diag_walk a st_NE i of
             Inl e \<Rightarrow> Inl e
           | Inr diag_NE \<Rightarrow>
               let ds1 = (if length diag_SE \<ge> 5 then ds @ [diag_SE] else ds);
                   ds2 = (if length diag_NE \<ge> 5 then ds1 @ [diag_NE] else ds1)
               in diag_loop_two a st_SE st_NE rest ds2))"

definition calculate_rows_cols_diags :: "GoBoard \<Rightarrow> failure + GoBoard" where
  "calculate_rows_cols_diags b =
     (if bsize b < 5 then Inr b
      else case rows_cols_loop b (range2 1 (bsize b + 1)) [] [] of
        Inl e \<Rightarrow> Inl e
      | Inr (rs, cs) \<Rightarrow>
      (case row_start b 1 of
        Inl e \<Rightarrow> Inl e
      | Inr start \<Rightarrow>
      (case diag_loop_one (board b) (NS b + 1) (range2 start (start + bsize b)) [] of
        Inl e \<Rightarrow> Inl e
      | Inr ds1 \<Rightarrow>
      (case row_start b (bsize b) of
        Inl e \<Rightarrow> Inl e
      | Inr sn \<Rightarrow>
      (case range3 (start + NS b) (sn + 1) (NS b) of
        Inl e \<Rightarrow> Inl e
      | Inr firsts \<Rightarrow>
      (case diag_loop_two (board b) (NS b + 1) (-1 * NS b + 1) firsts ds1 of
        Inl e \<Rightarrow> Inl e
      | Inr ds2 \<Rightarrow>
      (case diag_loop_one (board b) (-1 * NS b + 1)
              (range2 (sn + 1) (sn + 1 + bsize b)) ds2 of
        Inl e \<Rightarrow> Inl e
      | Inr ds3 \<Rightarrow>
          if int (length rs) \<noteq> bsize b then Inl AssertionError
          else if int (length cs) \<noteq> bsize b then Inl AssertionError
          else if int (length ds3) \<noteq> (2 * (bsize b - 5) + 1) * 2 then Inl AssertionError
          else Inr (b\<lparr>rows := Some rs, cols := Some cs, diags := Some ds3\<rparr>))))))))"

definition reset :: "GoBoard \<Rightarrow> int \<Rightarrow> failure + GoBoard" where
  "reset b sz =
     (let mp = sz * sz + 3 * (sz + 1);
          b1 = b\<lparr>bsize := sz, NS := sz + 1, WE := 1, ko_recapture := None,
                 last_move := None, last2_move := None, current_player := BLACK,
                 maxpoint := mp\<rparr>
      in if mp < 0 then Inl ValueError
         else case initialize_empty_points b1 (replicate (nat mp) BORDER) of
           Inl e \<Rightarrow> Inl e
         | Inr a \<Rightarrow> calculate_rows_cols_diags (b1\<lparr>board := a\<rparr>))"

text \<open>
  The object before \<^verbatim>\<open>__init__\<close> has assigned anything: no line attribute exists, and
  every other field is overwritten by \<^verbatim>\<open>reset\<close>. \<open>GoBoard_init\<close> is \<^verbatim>\<open>GoBoard(size)\<close>;
  \<open>M\<close> is the constant MAXSIZE of \<^verbatim>\<open>board_util\<close>.
\<close>

definition blank :: GoBoard where
  "blank = \<lparr>bsize = 0, NS = 0, WE = 0, ko_recapture = None, last_move = None,
            last2_move = None, current_player = 0, maxpoint = 0, board = [],
            rows = None, cols = None, diags = None\<rparr>"

definition GoBoard_init :: "int \<Rightarrow> int \<Rightarrow> failure + GoBoard" where
  "GoBoard_init M sz =
     (if \<not> (2 \<le> sz \<and> sz \<le> M) then Inl AssertionError
      else case reset blank sz of
        Inl e \<Rightarrow> Inl e
      | Inr b \<Rightarrow> calculate_rows_cols_diags b)"

definition copy :: "int \<Rightarrow> GoBoard \<Rightarrow> failure + GoBoard" where
  "copy M self =
     (case GoBoard_init M (bsize self) of
        Inl e \<Rightarrow> Inl e
      | Inr b \<Rightarrow>
          if NS b \<noteq> NS self then Inl AssertionError
          else if WE b \<noteq> WE self then Inl AssertionError
          else if maxpoint b \<noteq> maxpoint self then Inl AssertionError
          else Inr (b\<lparr>ko_recapture := ko_recapture self, last_move := last_move self,
                       last2_move := last2_move self,
                       current_player := current_player self, board := board self\<rparr>))"

definition is_legal :: "int \<Rightarrow> GoBoard \<Rightarrow> move \<Rightarrow> int \<Rightarrow> failure + bool" where
  "is_legal M b point color =
     (case copy M b of
        Inl e \<Rightarrow> Inl e
      | Inr board_copy \<Rightarrow>
          (case play_move board_copy point color of
             Inl e \<Rightarrow> Inl e
           | Inr (can_play_move, _) \<Rightarrow> Inr can_play_move))"

section \<open>Five in a row\<close>

text \<open>
  The loop of \<^verbatim>\<open>has_five_in_list\<close> over the points still to visit, with the running
  \<^verbatim>\<open>prev\<close> and \<^verbatim>\<open>counter\<close>.
\<close>

fun has_five_loop :: "int list \<Rightarrow> int \<Rightarrow> int \<Rightarrow> int list \<Rightarrow> failure + int" where
  "has_five_loop a prev counter [] = Inr EMPTY"
| "has_five_loop a prev counter (stone # rest) =
     (case get a stone of
        Inl e \<Rightarrow> Inl e
      | Inr v \<Rightarrow>
          let counter' = (if v = prev then counter + 1 else 1);
              prev' = (if v = prev then prev else v)
          in if counter' = 5 \<and> prev' \<noteq> EMPTY then Inr prev'
             else has_five_loop a prev' counter' rest)"

definition has_five_in_list :: "GoBoard \<Rightarrow> int list \<Rightarrow> failure + int" where
  "has_five_in_list b list = has_five_loop (board b) BORDER 1 list"

text \<open>One \<^verbatim>\<open>for\<close> loop of \<^verbatim>\<open>detect_five_in_a_row\<close> over a list of lines.\<close>

fun scan_lines :: "GoBoard \<Rightarrow> int list list \<Rightarrow> failure + int" where
  "scan_lines b [] = Inr EMPTY"
| "scan_lines b (l # rest) =
     (case has_five_in_list b l of
        Inl e \<Rightarrow> Inl e
      | Inr result \<Rightarrow> if result \<noteq> EMPTY then Inr result else scan_lines b rest)"

definition detect_five_in_a_row :: "GoBoard \<Rightarrow> failure + int" where
  "detect_five_in_a_row b =
     (case rows b of
        None \<Rightarrow> Inl AttributeError
      | Some rs \<Rightarrow>
      (case scan_lines b rs of
        Inl e \<Rightarrow> Inl e
      | Inr result \<Rightarrow>
          if result \<noteq> EMPTY then Inr result
          else (case cols b of
             None \<Rightarrow> Inl AttributeError
           | Some cs \<Rightarrow>
           (case scan_lines b cs of
              Inl e \<Rightarrow> Inl e
            | Inr result \<Rightarrow>
                if result \<noteq> EMPTY then Inr result
                else (case diags b of
                   None \<Rightarrow> Inl AttributeError
                 | Some ds \<Rightarrow> scan_lines b ds)))))"

section \<open>Directional probes\<close>

text \<open>
  Every probe runs the same two loops, one per sense, with its own stride: 1 for
  \<^verbatim>\<open>checkrow\<close>, \<^verbatim>\<open>NS\<close> for \<^verbatim>\<open>checkcol\<close>, \<^verbatim>\<open>NS + 1\<close> for \<^verbatim>\<open>checkd1\<close> and
  \<^verbatim>\<open>NS - 1\<close> for \<^verbatim>\<open>checkd2\<close>. \<open>probe_walk a color st pos\<close> is one such loop from
  \<open>pos\<close> with the signed stride \<open>st\<close>: it returns how many cells of \<open>color\<close> it counted,
  the index it stopped at and the value it found there.
\<close>

function probe_walk :: "int list \<Rightarrow> int \<Rightarrow> int \<Rightarrow> int \<Rightarrow> failure + (int \<times> int \<times> int)" where
  "probe_walk a color st pos =
     (case get a (pos + st) of
        Inl e \<Rightarrow> Inl e
      | Inr v \<Rightarrow>
          if v = color then
            (if st = 0 then Inl Diverges
             else case probe_walk a color st (pos + st) of
                    Inl e \<Rightarrow> Inl e
                  | Inr (k, q, w) \<Rightarrow> Inr (k + 1, q, w))
          else Inr (0, pos + st, v))"
  by pat_completeness auto
termination
  by (relation "measure (\<lambda>(a, color, st, pos).
        nat (if 0 < st then int (length a) - pos else pos + int (length a) + 1))")
     (auto simp: get_def Let_def split: if_splits)

declare probe_walk.simps [simp del]

text \<open>
  The second loop of the extended probes also rewrites the direction flag \<open>d\<close> at every
  matching cell: 1 becomes 0, anything else becomes -1.
\<close>

function probe_walk_d ::
  "int list \<Rightarrow> int \<Rightarrow> int \<Rightarrow> int \<Rightarrow> int \<Rightarrow> failure + (int \<times> int \<times> int \<times> int)" where
  "probe_walk_d a color st pos d =
     (case get a (pos + st) of
        Inl e \<Rightarrow> Inl e
      | Inr v \<Rightarrow>
          if v = color then
            (if st = 0 then Inl Diverges
             else case probe_walk_d a color st (pos + st) (if d = 1 then 0 else -1) of
                    Inl e \<Rightarrow> Inl e
                  | Inr (k, q, w, d') \<Rightarrow> Inr (k + 1, q, w, d'))
          else Inr (0, pos + st, v, d))"
  by pat_completeness auto
termination
  by (relation "measure (\<lambda>(a, color, st, pos, d).
        nat (if 0 < st then int (length a) - pos else pos + int (length a) + 1))")
     (auto simp: get_def Let_def split: if_splits)

declare probe_walk_d.simps [simp del]

text \<open>The body shared by \<^verbatim>\<open>checkrow\<close>, \<^verbatim>\<open>checkcol\<close>, \<^verbatim>\<open>checkd1\<close>, \<^verbatim>\<open>checkd2\<close>.\<close>

definition probe :: "int list \<Rightarrow> int \<Rightarrow> int \<Rightarrow> int \<Rightarrow> failure + (int \<times> int)" where
  "probe a st start color =
     (case get a start of
        Inl e \<Rightarrow> Inl e
      | Inr checkColor \<Rightarrow>
      (case probe_walk a color st start of
        Inl e \<Rightarrow> Inl e
      | Inr (k1, q1, v1) \<Rightarrow>
      (case probe_walk a color (- st) start of
        Inl e \<Rightarrow> Inl e
      | Inr (k2, q2, v2) \<Rightarrow>
          Inr (1 + k1 + k2,
               (if v1 = EMPTY then 1 else 0) + (if v2 = EMPTY then 1 else 0)))))"

definition checkrow :: "GoBoard \<Rightarrow> int \<Rightarrow> int \<Rightarrow> failure + (int \<times> int)" where
  "checkrow b start color = probe (board b) 1 start color"

definition checkcol :: "GoBoard \<Rightarrow> int \<Rightarrow> int \<Rightarrow> failure + (int \<times> int)" where
  "checkcol b start color = probe (board b) (NS b) start color"

definition checkd1 :: "GoBoard \<Rightarrow> int \<Rightarrow> int \<Rightarrow> failure + (int \<times> int)" where
  "checkd1 b start color = probe (board b) (NS b + 1) start color"

definition checkd2 :: "GoBoard \<Rightarrow> int \<Rightarrow> int \<Rightarrow> failure + (int \<times> int)" where
  "checkd2 b start color = probe (board b) (NS b - 1) start color"

text \<open>
  The body shared by \<^verbatim>\<open>checkrow2\<close>, \<^verbatim>\<open>checkcol2\<close>, \<^verbatim>\<open>checkd12\<close>, \<^verbatim>\<open>checkd22\<close>: it returns
  \<^verbatim>\<open>samecolor, space, d, s1, s2\<close>.
\<close>

definition probe2 ::
  "int list \<Rightarrow> int \<Rightarrow> int \<Rightarrow> int \<Rightarrow> failure + (int \<times> int \<times> int \<times> int \<times> int)" where
  "probe2 a st start color =
     (case get a start of
        Inl e \<Rightarrow> Inl e
      | Inr checkColor \<Rightarrow>
      (case probe_walk a color st start of
        Inl e \<Rightarrow> Inl e
      | Inr (k1, q1, v1) \<Rightarrow>
      (case probe_walk_d a color (- st) start (if k1 > 0 then 1 else 0) of
        Inl e \<Rightarrow> Inl e
      | Inr (k2, q2, v2, d) \<Rightarrow>
          Inr (1 + k1 + k2,
               (if v1 = EMPTY then 1 else 0) + (if v2 = EMPTY then 1 else 0),
               d,
               (if v1 = EMPTY then q1 else -1),
               (if v2 = EMPTY then q2 else -1)))))"

definition checkrow2 ::
  "GoBoard \<Rightarrow> int \<Rightarrow> int \<Rightarrow> failure + (int \<times> int \<times> int \<times> int \<times> int)" where
  "checkrow2 b start color = probe2 (board b) 1 start color"

definition checkcol2 ::
  "GoBoard \<Rightarrow> int \<Rightarrow> int \<Rightarrow> failure + (int \<times> int \<times> int \<times> int \<times> int)" where
  "checkcol2 b start color = probe2 (board b) (NS b) start color"

definition checkd12 ::
  "GoBoard \<Rightarrow> int \<Rightarrow> int \<Rightarrow> failure + (int \<times> int \<times> int \<times> int \<times> int)" where
  "checkd12 b start color = probe2 (board b) (NS b + 1) start color"

definition checkd22 ::
  "GoBoard \<Rightarrow> int \<Rightarrow> int \<Rightarrow> failure + (int \<times> int \<times> int \<times> int \<times> int)" where
  "checkd22 b start color = probe2 (board b) (NS b - 1) start color"

section \<open>Threat detection\<close>

text \<open>
  The four basic probes at one point, in the order in which \<^verbatim>\<open>Win\<close>, \<^verbatim>\<open>BlockWin\<close> and
  \<^verbatim>\<open>OpenFour\<close> call them.
\<close>

definition probes ::
  "GoBoard \<Rightarrow> int \<Rightarrow> int \<Rightarrow> failure + ((int \<times> int) \<times> (int \<times> int) \<times> (int \<times> int) \<times> (int \<times> int))" where
  "probes b i color =
     (case checkrow b i color of Inl e \<Rightarrow> Inl e | Inr r \<Rightarrow>
     (case checkcol b i color of Inl e \<Rightarrow> Inl e | Inr c \<Rightarrow>
     (case checkd1 b i color of Inl e \<Rightarrow> Inl e | Inr d1 \<Rightarrow>
     (case checkd2 b i color of Inl e \<Rightarrow> Inl e | Inr d2 \<Rightarrow> Inr (r, c, d1, d2)))))"

text \<open>The loop of \<^verbatim>\<open>Win\<close> and of \<^verbatim>\<open>BlockWin\<close> over the empty points.\<close>

fun win_loop :: "GoBoard \<Rightarrow> int \<Rightarrow> int list \<Rightarrow> int list \<Rightarrow> failure + int list" where
  "win_loop b color [] move_list = Inr move_list"
| "win_loop b color (i # rest) move_list =
     (case probes b i color of
        Inl e \<Rightarrow> Inl e
      | Inr ((rowc, rowsp), (colc, colsp), (d1c, d1s), (d2c, d2s)) \<Rightarrow>
          win_loop b color rest
            (if rowc \<ge> 5 \<or> colc \<ge> 5 \<or> d1c \<ge> 5 \<or> d2c \<ge> 5 then move_list @ [i]
             else move_list))"

definition Win :: "GoBoard \<Rightarrow> failure + int list" where
  "Win b = win_loop b (current_player b) (where1d_eq (board b) EMPTY) []"

definition BlockWin :: "GoBoard \<Rightarrow> failure + int list" where
  "BlockWin b =
     win_loop b (WHITE + BLACK - current_player b) (where1d_eq (board b) EMPTY) []"

fun open_four_loop :: "GoBoard \<Rightarrow> int \<Rightarrow> int list \<Rightarrow> int list \<Rightarrow> failure + int list" where
  "open_four_loop b color [] move_list = Inr move_list"
| "open_four_loop b color (i # rest) move_list =
     (case probes b i color of
        Inl e \<Rightarrow> Inl e
      | Inr ((rowc, rowsp), (colc, colsp), (d1c, d1s), (d2c, d2s)) \<Rightarrow>
          open_four_loop b color rest
            (if rowc = 4 \<and> rowsp = 2 then move_list @ [i]
             else if colc = 4 \<and> colsp = 2 then move_list @ [i]
             else if d1c = 4 \<and> d1s = 2 then move_list @ [i]
             else if d2c = 4 \<and> d2s = 2 then move_list @ [i]
             else move_list))"

definition OpenFour :: "GoBoard \<Rightarrow> failure + int list" where
  "OpenFour b = open_four_loop b (current_player b) (where1d_eq (board b) EMPTY) []"

text \<open>
  \<^verbatim>\<open>BlockOpenFour\<close>, sub-case of a run of four with one open end. On the row axis the two
  branches test \<^verbatim>\<open>board[i+5]\<close> and \<^verbatim>\<open>board[i-5]\<close>, and both append \<^verbatim>\<open>i+5\<close>; on
  the other axes, with \<open>off\<close> the fivefold stride, the branch for \<open>d = -1\<close> appends
  \<^verbatim>\<open>i - off\<close>. A cell is tested against the literal 0.
\<close>

definition row_one_sided :: "int list \<Rightarrow> int \<Rightarrow> int \<Rightarrow> failure + int list" where
  "row_one_sided a i rd =
     (if rd = 1 then
        (case get a (i + 5) of
           Inl e \<Rightarrow> Inl e
         | Inr v \<Rightarrow> Inr (if v = 0 then [i + 5, i] else []))
      else if rd = -1 then
        (case get a (i - 5) of
           Inl e \<Rightarrow> Inl e
         | Inr v \<Rightarrow> Inr (if v = 0 then [i + 5, i] else []))
      else Inr [])"

definition one_sided :: "int list \<Rightarrow> int \<Rightarrow> int \<Rightarrow> int \<Rightarrow> failure + int list" where
  "one_sided a i off d =
     (if d = 1 then
        (case get a (i + off) of
           Inl e \<Rightarrow> Inl e
         | Inr v \<Rightarrow> Inr (if v = 0 then [i + off, i] else []))
      else if d = -1 then
        (case get a (i - off) of
           Inl e \<Rightarrow> Inl e
         | Inr v \<Rightarrow> Inr (if v = 0 then [i - off, i] else []))
      else Inr [])"

text \<open>What one pass of the loop body of \<^verbatim>\<open>BlockOpenFour\<close> appends for the point \<open>i\<close>.\<close>

definition BlockOpenFour_at :: "GoBoard \<Rightarrow> int \<Rightarrow> int \<Rightarrow> failure + int list" where
  "BlockOpenFour_at b color i =
     (case checkrow2 b i color of Inl e \<Rightarrow> Inl e | Inr (rowc, rowsp, rd, rs1, rs2) \<Rightarrow>
     (case checkcol2 b i color of Inl e \<Rightarrow> Inl e | Inr (colc, colsp, cd, cs1, cs2) \<Rightarrow>
     (case checkd12 b i color of Inl e \<Rightarrow> Inl e | Inr (d1c, d1s, d1, ds1, ds2) \<Rightarrow>
     (case checkd22 b i color of Inl e \<Rightarrow> Inl e | Inr (d2c, d2s, d2, d21, d22) \<Rightarrow>
     (case (if rowc = 4 \<and> rowsp = 1 then row_one_sided (board b) i rd else Inr []) of
        Inl e \<Rightarrow> Inl e | Inr m1 \<Rightarrow>
     (case (if colc = 4 \<and> colsp = 1 then one_sided (board b) i (5 * NS b) cd else Inr []) of
        Inl e \<Rightarrow> Inl e | Inr m2 \<Rightarrow>
     (case (if d1c = 4 \<and> d1s = 1 then one_sided (board b) i (5 * (NS b + 1)) d1 else Inr []) of
        Inl e \<Rightarrow> Inl e | Inr m3 \<Rightarrow>
     (case (if d2c = 4 \<and> d2s = 1 then one_sided (board b) i (5 * (NS b - 1)) d2 else Inr []) of
        Inl e \<Rightarrow> Inl e | Inr m4 \<Rightarrow>
        Inr (m1 @ m2 @ m3 @ m4
             @ (if rowc = 4 \<and> rowsp = 2 then [i] else [])
             @ (if colc = 4 \<and> colsp = 2 then [i] else [])
             @ (if d1c = 4 \<and> d1s = 2 then [i] else [])
             @ (if d2c = 4 \<and> d2s = 2 then [i] else [])
             @ (if rowc = 4 \<and> rowsp = 2 \<and> rd = 0 then [rs1, rs2] else [])
             @ (if colc = 4 \<and> colsp = 2 \<and> cd = 0 then [cs1, cs2] else [])
             @ (if d1c = 4 \<and> d1s = 2 \<and> d1 = 0 then [ds1, ds2] else [])
             @ (if d2c = 4 \<and> d2s = 2 \<and> d2 = 0 then [d21, d22] else []))))))))))"

fun block_open_four_loop ::
  "GoBoard \<Rightarrow> int \<Rightarrow> int list \<Rightarrow> int list \<Rightarrow> failure + int list" where
  "block_open_four_loop b color [] move_list = Inr move_list"
| "block_open_four_loop b color (i # rest) move_list =
     (case BlockOpenFour_at b color i of
        Inl e \<Rightarrow> Inl e
      | Inr ms \<Rightarrow> block_open_four_loop b color rest (move_list @ ms))"

text \<open>
  \<^verbatim>\<open>list(set(move_list))\<close> keeps one copy of every point. The source leaves the order
  of the result to the interpreter's set; here it is the order of first occurrence.
\<close>

definition BlockOpenFour :: "GoBoard \<Rightarrow> failure + int list" where
  "BlockOpenFour b =
     (case block_open_four_loop b (WHITE + BLACK - current_player b)
             (where1d_eq (board b) EMPTY) [] of
        Inl e \<Rightarrow> Inl e
      | Inr move_list \<Rightarrow> Inr (remdups move_list))"

section \<open>Move selection\<close>

text \<open>
  Random draws come from a stream \<open>rnd\<close> read at a position \<open>k\<close>; every random call uses
  one draw.

  Modelled from the spec: \<^verbatim>\<open>GoBoardUtil.generate_random_move\<close> of \<^verbatim>\<open>board_util\<close>, a
  uniformly chosen empty point, and \<open>None\<close> when no empty point remains.
\<close>

definition generate_random_move :: "GoBoard \<Rightarrow> int \<Rightarrow> nat \<Rightarrow> int option" where
  "generate_random_move b color r =
     (let moves = get_empty_points b
      in if moves = [] then None else Some (moves ! (r mod length moves)))"

text \<open>\<^verbatim>\<open>random.choice\<close> raises IndexError on an empty sequence.\<close>

definition random_choice :: "int list \<Rightarrow> nat \<Rightarrow> failure + int" where
  "random_choice xs r = (if xs = [] then Inl IndexError else Inr (xs ! (r mod length xs)))"

text \<open>
  \<^verbatim>\<open>get_order\<close> ignores its colour argument; when the board has no empty point it falls
  off its end and returns \<open>None\<close>.
\<close>

definition get_order :: "GoBoard \<Rightarrow> int \<Rightarrow> failure + int list option" where
  "get_order b color =
     (case Win b of Inl e \<Rightarrow> Inl e | Inr move_list \<Rightarrow>
        if move_list \<noteq> [] then Inr (Some move_list) else
     (case BlockWin b of Inl e \<Rightarrow> Inl e | Inr move_list \<Rightarrow>
        if move_list \<noteq> [] then Inr (Some move_list) else
     (case OpenFour b of Inl e \<Rightarrow> Inl e | Inr move_list \<Rightarrow>
        if move_list \<noteq> [] then Inr (Some move_list) else
     (case BlockOpenFour b of Inl e \<Rightarrow> Inl e | Inr move_list \<Rightarrow>
        if move_list \<noteq> [] then Inr (Some move_list) else
        (let move_list = get_empty_points b
         in if move_list \<noteq> [] then Inr (Some move_list) else Inr None)))))"

text \<open>
  \<^verbatim>\<open>sim_for_one\<close> binds the random move to the local \<^verbatim>\<open>moves\<close> and then passes
  \<^verbatim>\<open>move\<close> to \<^verbatim>\<open>play_move\<close>. No local, parameter or module-level name \<^verbatim>\<open>move\<close>
  exists, so evaluating that argument raises NameError, before \<^verbatim>\<open>play_move\<close> and the
  recursive call are reached. The board is not changed on any path.
\<close>

definition sim_for_one :: "GoBoard \<Rightarrow> int \<Rightarrow> (nat \<Rightarrow> nat) \<Rightarrow> nat \<Rightarrow> failure + (int \<times> nat)" where
  "sim_for_one b color rnd k =
     (case detect_five_in_a_row b of
        Inl e \<Rightarrow> Inl e
      | Inr result \<Rightarrow>
          if result = color then Inr (1, k)
          else if result = opponent color then Inr (-1, k)
          else (case generate_random_move b (current_player b) (rnd k) of
                  None \<Rightarrow> Inr (0, Suc k)
                | Some moves \<Rightarrow> Inl NameError))"

text \<open>
  \<^verbatim>\<open>sim_for_one_rule\<close> calls itself once per move. The first argument is the number of
  nested calls the interpreter still allows; when none is left the call raises
  RecursionError. The result is the score, the board as the rollout left it, and the
  position in the random stream.
\<close>

fun sim_for_one_rule ::
  "nat \<Rightarrow> GoBoard \<Rightarrow> int \<Rightarrow> (nat \<Rightarrow> nat) \<Rightarrow> nat \<Rightarrow> failure + (int \<times> GoBoard \<times> nat)" where
  "sim_for_one_rule 0 b color rnd k = Inl RecursionError"
| "sim_for_one_rule (Suc depth) b color rnd k =
     (case detect_five_in_a_row b of
        Inl e \<Rightarrow> Inl e
      | Inr result \<Rightarrow>
          if result = color then Inr (1, b, k)
          else if result = opponent color then Inr (-1, b, k)
          else (case get_order b (current_player b) of
                  Inl e \<Rightarrow> Inl e
                | Inr None \<Rightarrow> Inr (0, b, k)
                | Inr (Some moves) \<Rightarrow>
                    (case random_choice moves (rnd k) of
                       Inl e \<Rightarrow> Inl e
                     | Inr mv \<Rightarrow>
                         (case play_move b (Pt mv) (current_player b) of
                            Inl e \<Rightarrow> Inl e
                          | Inr (ok, b') \<Rightarrow> sim_for_one_rule depth b' color rnd (Suc k)))))"

text \<open>
  The inner loop \<^verbatim>\<open>for j in range(self.NN)\<close> of \<^verbatim>\<open>simulation\<close>, for one candidate: the
  board \<open>temp\<close> was copied before the loop and is handed from one pass to the next.
\<close>

fun trials_random ::
  "nat \<Rightarrow> GoBoard \<Rightarrow> int \<Rightarrow> int \<Rightarrow> (nat \<Rightarrow> nat) \<Rightarrow> nat \<Rightarrow> int
     \<Rightarrow> failure + (int \<times> GoBoard \<times> nat)" where
  "trials_random 0 temp mv color rnd k wins = Inr (wins, temp, k)"
| "trials_random (Suc n) temp mv color rnd k wins =
     (case play_move temp (Pt mv) color of
        Inl e \<Rightarrow> Inl e
      | Inr (ok, temp1) \<Rightarrow>
          (case sim_for_one temp1 color rnd k of
             Inl e \<Rightarrow> Inl e
           | Inr (win, k1) \<Rightarrow>
               trials_random n temp1 mv color rnd k1 (if win = 1 then wins + 1 else wins)))"

fun trials_rule ::
  "nat \<Rightarrow> nat \<Rightarrow> GoBoard \<Rightarrow> int \<Rightarrow> int \<Rightarrow> (nat \<Rightarrow> nat) \<Rightarrow> nat \<Rightarrow> int
     \<Rightarrow> failure + (int \<times> GoBoard \<times> nat)" where
  "trials_rule 0 depth temp mv color rnd k wins = Inr (wins, temp, k)"
| "trials_rule (Suc n) depth temp mv color rnd k wins =
     (case play_move temp (Pt mv) color of
        Inl e \<Rightarrow> Inl e
      | Inr (ok, temp1) \<Rightarrow>
          (case sim_for_one_rule depth temp1 color rnd k of
             Inl e \<Rightarrow> Inl e
           | Inr (win, temp2, k1) \<Rightarrow>
               trials_rule n depth temp2 mv color rnd k1 (if win = 1 then wins + 1 else wins)))"

text \<open>
  The outer loop over the candidates. \<open>NN\<close> is the attribute \<^verbatim>\<open>self.NN\<close> (10 in
  \<^verbatim>\<open>__init__\<close>), \<open>M\<close> the constant MAXSIZE, \<open>depth\<close> the recursion limit. A score is
  the quotient \<^verbatim>\<open>score[i] / self.NN\<close>, here a rational number.
\<close>

fun candidates_loop ::
  "bool \<Rightarrow> int \<Rightarrow> int \<Rightarrow> nat \<Rightarrow> GoBoard \<Rightarrow> int \<Rightarrow> (nat \<Rightarrow> nat) \<Rightarrow> nat \<Rightarrow> int list
     \<Rightarrow> rat list \<Rightarrow> failure + rat list" where
  "candidates_loop rule NN M depth b color rnd k [] score = Inr score"
| "candidates_loop rule NN M depth b color rnd k (mv # rest) score =
     (case copy M b of
        Inl e \<Rightarrow> Inl e
      | Inr temp \<Rightarrow>
          (case (if rule then trials_rule (nat NN) depth temp mv color rnd k 0
                 else trials_random (nat NN) temp mv color rnd k 0) of
             Inl e \<Rightarrow> Inl e
           | Inr (wins, temp', k') \<Rightarrow>
               if NN = 0 then Inl ZeroDivisionError
               else candidates_loop rule NN M depth b color rnd k' rest
                      (score @ [of_int wins / of_int NN])))"

definition best_of :: "int list \<Rightarrow> rat list \<Rightarrow> failure + int" where
  "best_of legal_moves score =
     (if score = [] then Inl ValueError
      else Inr (legal_moves ! length (takeWhile (\<lambda>x. x \<noteq> Max (set score)) score)))"

definition simulation_scores ::
  "int \<Rightarrow> int \<Rightarrow> nat \<Rightarrow> GoBoard \<Rightarrow> int \<Rightarrow> string \<Rightarrow> (nat \<Rightarrow> nat)
     \<Rightarrow> failure + (int list \<times> rat list) option" where
  "simulation_scores NN M depth b color policy rnd =
     (if policy = ''random'' then
        (let legal_moves = get_empty_points b
         in case candidates_loop False NN M depth b color rnd 0 legal_moves [] of
              Inl e \<Rightarrow> Inl e
            | Inr score \<Rightarrow> Inr (Some (legal_moves, score)))
      else if policy = ''rule_based'' then
        (case get_order b color of
           Inl e \<Rightarrow> Inl e
         | Inr None \<Rightarrow> Inl TypeError
         | Inr (Some legal_moves) \<Rightarrow>
             (case candidates_loop True NN M depth b color rnd 0 legal_moves [] of
                Inl e \<Rightarrow> Inl e
              | Inr score \<Rightarrow> Inr (Some (legal_moves, score))))
      else Inr None)"

definition simulation ::
  "int \<Rightarrow> int \<Rightarrow> nat \<Rightarrow> GoBoard \<Rightarrow> int \<Rightarrow> string \<Rightarrow> (nat \<Rightarrow> nat) \<Rightarrow> failure + int option" where
  "simulation NN M depth b color policy rnd =
     (case simulation_scores NN M depth b color policy rnd of
        Inl e \<Rightarrow> Inl e
      | Inr None \<Rightarrow> Inr None
      | Inr (Some (legal_moves, score)) \<Rightarrow>
          (case best_of legal_moves score of
             Inl e \<Rightarrow> Inl e
           | Inr best \<Rightarrow> Inr (Some best)))"

section \<open>Positions\<close>

text \<open>
  A position arises from \<^verbatim>\<open>GoBoard(size)\<close> by calls of \<^verbatim>\<open>play_move\<close> that return True.
  \<open>position M sz ms\<close> builds one from a list of moves, \<open>reachable M\<close> is the set of all
  of them.
\<close>

fun play_moves :: "GoBoard \<Rightarrow> (move \<times> int) list \<Rightarrow> failure + GoBoard" where
  "play_moves b [] = Inr b"
| "play_moves b ((m, c) # rest) =
     (case play_move b m c of
        Inl e \<Rightarrow> Inl e
      | Inr (ok, b') \<Rightarrow> if ok then play_moves b' rest else Inl ValueError)"

definition position :: "int \<Rightarrow> int \<Rightarrow> (move \<times> int) list \<Rightarrow> failure + GoBoard" where
  "position M sz ms =
     (case GoBoard_init M sz of Inl e \<Rightarrow> Inl e | Inr b \<Rightarrow> play_moves b ms)"

inductive_set reachable :: "int \<Rightarrow> GoBoard set" for M :: int where
  created: "GoBoard_init M sz = Inr b \<Longrightarrow> b \<in> reachable M"
| played: "b \<in> reachable M \<Longrightarrow> play_move b m c = Inr (True, b') \<Longrightarrow> b' \<in> reachable M"

section \<open>Predicates used in the statements\<close>

text \<open>
  A point of a board of size \<open>s\<close> is \<open>row * (s + 1) + col\<close> with row and column from 1 to
  \<open>s\<close>; every other index of the array is padding. \<open>shape_ok\<close> is what every position
  keeps: the sizes set by \<^verbatim>\<open>reset\<close>, BORDER on the padding and nowhere else, and BLACK or
  WHITE to move. \<open>fresh_cells\<close> describes the array right after \<^verbatim>\<open>reset\<close>, \<open>cells_ok\<close>
  says that only the four colours occur, and \<open>points_on\<close> that lines hold points only.
\<close>

definition on_board :: "int \<Rightarrow> int \<Rightarrow> bool" where
  "on_board s p \<longleftrightarrow> (\<exists>r\<in>{1..s}. \<exists>c\<in>{1..s}. p = r * (s + 1) + c)"

definition shape_ok :: "GoBoard \<Rightarrow> bool" where
  "shape_ok b \<longleftrightarrow>
     2 \<le> bsize b \<and> NS b = bsize b + 1
     \<and> maxpoint b = bsize b * bsize b + 3 * (bsize b + 1)
     \<and> int (length (board b)) = maxpoint b
     \<and> (\<forall>p. 0 \<le> p \<and> p < maxpoint b \<longrightarrow>
           (board b ! nat p = BORDER) = (\<not> on_board (bsize b) p))
     \<and> is_black_white (current_player b)"

definition fresh_cells :: "int \<Rightarrow> int list \<Rightarrow> bool" where
  "fresh_cells s a \<longleftrightarrow>
     int (length a) = s * s + 3 * (s + 1)
     \<and> (\<forall>p. 0 \<le> p \<and> p < s * s + 3 * (s + 1) \<longrightarrow>
           a ! nat p = (if on_board s p then EMPTY else BORDER))"

definition cells_ok :: "GoBoard \<Rightarrow> bool" where
  "cells_ok b \<longleftrightarrow> set (board b) \<subseteq> {EMPTY, BLACK, WHITE, BORDER}"

definition points_on :: "int \<Rightarrow> int list list \<Rightarrow> bool" where
  "points_on s ls \<longleftrightarrow> (\<forall>l\<in>set ls. \<forall>p\<in>set l. on_board s p)"

text \<open>
  The spec's wording of the scan, on the colours found along a line: \<open>first_five\<close> is
  the colour of the first five consecutive equal cells that are not EMPTY (EMPTY when
  there are none), \<open>streak_at\<close> says that such five cells start at a position, and
  \<open>first_found\<close> is the first result other than EMPTY in a list of results.
  \<open>lines_of\<close> lists the lines in scan order: rows, then columns, then diagonals.
\<close>

fun first_five :: "int list \<Rightarrow> int" where
  "first_five [] = EMPTY"
| "first_five (x # xs) =
     (if x \<noteq> EMPTY \<and> 4 \<le> length xs \<and> (\<forall>y\<in>set (take 4 xs). y = x) then x
      else first_five xs)"

definition streak_at :: "int list \<Rightarrow> nat \<Rightarrow> bool" where
  "streak_at cs i \<longleftrightarrow>
     i + 5 \<le> length cs \<and> cs ! i \<noteq> EMPTY \<and> (\<forall>k<5. cs ! (i + k) = cs ! i)"

fun first_found :: "int list \<Rightarrow> int" where
  "first_found [] = EMPTY"
| "first_found (r # rs) = (if r \<noteq> EMPTY then r else first_found rs)"

definition colors_along :: "GoBoard \<Rightarrow> int list \<Rightarrow> int list" where
  "colors_along b l = map (\<lambda>p. board b ! nat p) l"

definition lines_of :: "GoBoard \<Rightarrow> int list list" where
  "lines_of b = the (rows b) @ the (cols b) @ the (diags b)"

text \<open>
  The four axes of the probes and their strides, to state what \<^verbatim>\<open>BlockOpenFour\<close> does
  on every axis at once; \<open>probe2_on\<close> is \<^verbatim>\<open>checkrow2\<close>, \<^verbatim>\<open>checkcol2\<close>,
  \<^verbatim>\<open>checkd12\<close> or \<^verbatim>\<open>checkd22\<close>.
\<close>

datatype axis = Row | Col | Diag1 | Diag2

fun stride :: "GoBoard \<Rightarrow> axis \<Rightarrow> int" where
  "stride b Row = 1"
| "stride b Col = NS b"
| "stride b Diag1 = NS b + 1"
| "stride b Diag2 = NS b - 1"

fun probe2_on ::
  "GoBoard \<Rightarrow> axis \<Rightarrow> int \<Rightarrow> int \<Rightarrow> failure + (int \<times> int \<times> int \<times> int \<times> int)" where
  "probe2_on b Row i color = checkrow2 b i color"
| "probe2_on b Col i color = checkcol2 b i color"
| "probe2_on b Diag1 i color = checkd12 b i color"
| "probe2_on b Diag2 i color = checkd22 b i color"

text \<open>
  A rollout is settled on a board with the result \<open>res\<close> when \<^verbatim>\<open>sim_for_one_rule\<close>
  returns \<open>res\<close> there without playing a move.
\<close>

definition settled :: "GoBoard \<Rightarrow> int \<Rightarrow> int \<Rightarrow> bool" where
  "settled b color res \<longleftrightarrow>
     (\<exists>r. detect_five_in_a_row b = Inr r \<and>
        (if r = color then res = 1
         else if r = opponent color then res = -1
         else res = 0 \<and> get_order b (current_player b) = Inr None))"

section \<open>Positions used as concrete inputs\<close>

text \<open>
  Each of them is built by \<open>position\<close> with MAXSIZE taken as 25; a lemma named after it
  shows that \<open>position\<close> returns it. On a board of size 5 the points of row \<open>r\<close> are
  \<open>6 r + 1\<close> to \<open>6 r + 5\<close>, on size 7 they are \<open>8 r + 1\<close> to \<open>8 r + 7\<close>, on size 9
  \<open>10 r + 1\<close> to \<open>10 r + 9\<close>.
\<close>

text \<open>The new board of size 5, and the same after BLACK has played the first point.\<close>

definition start5 :: GoBoard where
  "start5 = projr (position 25 5 [])"

definition taken5 :: GoBoard where
  "taken5 = projr (position 25 5 [(Pt 7, BLACK)])"

text \<open>A board of size 3 with one stone.\<close>

definition small3 :: GoBoard where
  "small3 = projr (position 25 3 [(Pt 5, BLACK)])"

text \<open>Size 9: BLACK on columns 3, 4 and 5 of row 5, BLACK to move.\<close>

definition scenario9 :: GoBoard where
  "scenario9 = projr (position 25 9
     [(Pt 53, BLACK), (PASS, WHITE), (Pt 54, BLACK), (PASS, WHITE), (Pt 55, BLACK), (PASS, WHITE)])"

text \<open>Size 5: BLACK on the whole second row; and BLACK on its first four points only.\<close>

definition five5 :: GoBoard where
  "five5 = projr (position 25 5
     [(Pt 13, BLACK), (PASS, WHITE), (Pt 14, BLACK), (PASS, WHITE), (Pt 15, BLACK),
      (PASS, WHITE), (Pt 16, BLACK), (PASS, WHITE), (Pt 17, BLACK)])"

definition four5 :: GoBoard where
  "four5 = projr (position 25 5
     [(Pt 13, BLACK), (PASS, WHITE), (Pt 14, BLACK), (PASS, WHITE), (Pt 15, BLACK),
      (PASS, WHITE), (Pt 16, BLACK), (PASS, WHITE)])"

text \<open>
  Positions with three WHITE stones and BLACK to move: on the third row of size 5 with a
  gap at 20; on the first row of size 7 next to a BLACK stone, without and with a BLACK
  stone on 19; down the first column of size 7 below a BLACK stone; at the foot of the
  first column of size 5.
\<close>

definition gap5 :: GoBoard where
  "gap5 = projr (position 25 5
     [(PASS, BLACK), (Pt 19, WHITE), (PASS, BLACK), (Pt 21, WHITE), (PASS, BLACK),
      (Pt 22, WHITE)])"

definition row7 :: GoBoard where
  "row7 = projr (position 25 7
     [(Pt 10, BLACK), (Pt 11, WHITE), (PASS, BLACK), (Pt 12, WHITE), (PASS, BLACK),
      (Pt 13, WHITE)])"

definition stuck7 :: GoBoard where
  "stuck7 = projr (position 25 7
     [(Pt 10, BLACK), (Pt 11, WHITE), (Pt 19, BLACK), (Pt 12, WHITE), (PASS, BLACK),
      (Pt 13, WHITE)])"

definition up7 :: GoBoard where
  "up7 = projr (position 25 7
     [(Pt 17, BLACK), (Pt 25, WHITE), (PASS, BLACK), (Pt 33, WHITE), (PASS, BLACK),
      (Pt 41, WHITE)])"

definition edge5 :: GoBoard where
  "edge5 = projr (position 25 5
     [(PASS, BLACK), (Pt 19, WHITE), (PASS, BLACK), (Pt 25, WHITE), (PASS, BLACK),
      (Pt 31, WHITE)])"

section \<open>Shape of a board\<close>

lemma on_board_bounds:
  assumes "on_board s p"
  shows "s + 2 \<le> p" and "p \<le> s * s + 2 * s" and "1 \<le> s"
proof -
  from assms obtain r c where rc: "1 \<le> r" "r \<le> s" "1 \<le> c" "c \<le> s" "p = r * (s + 1) + c"
    by (auto simp: on_board_def)
  then show "1 \<le> s" by linarith
  then have s0: "0 \<le> s + 1" by simp
  have "s + 1 \<le> r * (s + 1)" using mult_right_mono[OF rc(1) s0] by simp
  with rc show "s + 2 \<le> p" by linarith
  have "r * (s + 1) \<le> s * (s + 1)" using rc(2) s0 by (rule mult_right_mono)
  then have "r * (s + 1) \<le> s * s + s" by (simp add: algebra_simps)
  with rc show "p \<le> s * s + 2 * s" by linarith
qed

lemma fill_slice_length [simp]: "length (fill_slice a lo hi v) = length a"
  by (simp add: fill_slice_def Let_def)

lemma fill_slice_nth:
  assumes "j < length a" and "0 \<le> lo" and "0 \<le> hi"
  shows "fill_slice a lo hi v ! j = (if lo \<le> int j \<and> int j < hi then v else a ! j)"
  using assms by (auto simp: fill_slice_def Let_def slice_bound_def)

lemma initialize_rows_nth:
  assumes "\<forall>row\<in>set xs. 1 \<le> row \<and> row \<le> bsize b" and "0 \<le> NS b" and "0 \<le> bsize b"
  shows "\<exists>a'. initialize_rows b a xs = Inr a' \<and> length a' = length a \<and>
           (\<forall>j<length a. a' ! j =
              (if \<exists>row\<in>set xs. row * NS b + 1 \<le> int j \<and> int j < row * NS b + 1 + bsize b
               then EMPTY else a ! j))"
  using assms(1)
proof (induction xs arbitrary: a)
  case Nil
  then show ?case by simp
next
  case (Cons row xs)
  then have row: "1 \<le> row" "row \<le> bsize b" and rest: "\<forall>row\<in>set xs. 1 \<le> row \<and> row \<le> bsize b"
    by auto
  have rs: "row_start b row = Inr (row * NS b + 1)"
    using row by (simp add: row_start_def)
  have nn: "0 \<le> row * NS b" using row assms(2) by simp
  let ?a1 = "fill_slice a (row * NS b + 1) (row * NS b + 1 + bsize b) EMPTY"
  from Cons.IH[OF rest, of ?a1] obtain a' where
    a': "initialize_rows b ?a1 xs = Inr a'" "length a' = length ?a1"
      "\<forall>j<length ?a1. a' ! j =
         (if \<exists>row\<in>set xs. row * NS b + 1 \<le> int j \<and> int j < row * NS b + 1 + bsize b
          then EMPTY else ?a1 ! j)"
    by blast
  have "\<forall>j<length a. a' ! j =
      (if \<exists>r\<in>set (row # xs). r * NS b + 1 \<le> int j \<and> int j < r * NS b + 1 + bsize b
       then EMPTY else a ! j)"
  proof (intro allI impI)
    fix j assume j: "j < length a"
    have "?a1 ! j = (if row * NS b + 1 \<le> int j \<and> int j < row * NS b + 1 + bsize b then EMPTY else a ! j)"
      using j nn assms(3) by (subst fill_slice_nth) auto
    with a'(3) j show "a' ! j =
      (if \<exists>r\<in>set (row # xs). r * NS b + 1 \<le> int j \<and> int j < r * NS b + 1 + bsize b
       then EMPTY else a ! j)"
      by auto
  qed
  with a' rs show ?case by (auto simp: add.assoc)
qed

lemma calculate_fields:
  assumes "calculate_rows_cols_diags b = Inr b'"
  shows "board b' = board b" "bsize b' = bsize b" "NS b' = NS b" "maxpoint b' = maxpoint b"
    "current_player b' = current_player b" "WE b' = WE b"
    "last_move b' = last_move b" "last2_move b' = last2_move b"
    "ko_recapture b' = ko_recapture b"
  using assms
  by (auto simp: calculate_rows_cols_diags_def split: if_splits sum.splits prod.splits)

lemma calculate_shape:
  "calculate_rows_cols_diags b = Inr b' \<Longrightarrow> shape_ok b' = shape_ok b"
  by (simp add: shape_ok_def calculate_fields)

lemma calculate_small:
  "bsize b < 5 \<Longrightarrow> calculate_rows_cols_diags b = Inr b"
  by (simp add: calculate_rows_cols_diags_def)

lemma mp_pos: "0 < s * s + 3 * (s + 1)" for s :: int
proof -
  have "0 \<le> (2 * s + 3) * (2 * s + 3)" by simp
  then have "0 \<le> 4 * (s * s) + 12 * s + 9" by (simp add: algebra_simps)
  then show ?thesis by simp
qed

lemma reset_calc:
  assumes "0 \<le> s"
  shows "\<exists>a. fresh_cells s a \<and>
     reset b s = calculate_rows_cols_diags
       (b\<lparr>bsize := s, NS := s + 1, WE := 1, ko_recapture := None, last_move := None,
          last2_move := None, current_player := BLACK,
          maxpoint := s * s + 3 * (s + 1), board := a\<rparr>)"
proof -
  let ?mp = "s * s + 3 * (s + 1)"
  let ?b1 = "b\<lparr>bsize := s, NS := s + 1, WE := 1, ko_recapture := None, last_move := None,
          last2_move := None, current_player := BLACK, maxpoint := ?mp\<rparr>"
  let ?a0 = "replicate (nat ?mp) BORDER"
  have rows_ok: "\<forall>row\<in>set (range2 1 (bsize ?b1 + 1)). 1 \<le> row \<and> row \<le> bsize ?b1"
    by (simp add: range2_def)
  from initialize_rows_nth[OF rows_ok, of ?a0] assms obtain a where
    a: "initialize_rows ?b1 ?a0 (range2 1 (s + 1)) = Inr a" "length a = length ?a0"
       "\<forall>j<length ?a0. a ! j =
          (if \<exists>row\<in>set (range2 1 (s + 1)). row * (s + 1) + 1 \<le> int j \<and> int j < row * (s + 1) + 1 + s
           then EMPTY else ?a0 ! j)"
    by auto
  have len: "int (length a) = ?mp" using a(2) mp_pos[of s] by simp
  have cells: "a ! nat p = (if on_board s p then EMPTY else BORDER)" if p: "0 \<le> p" "p < ?mp" for p
  proof -
    have lt: "nat p < length ?a0" using p by simp
    have eq: "(\<exists>row\<in>set (range2 1 (s + 1)). row * (s + 1) + 1 \<le> p \<and> p < row * (s + 1) + 1 + s)
              \<longleftrightarrow> on_board s p"
    proof
      assume "\<exists>row\<in>set (range2 1 (s + 1)). row * (s + 1) + 1 \<le> p \<and> p < row * (s + 1) + 1 + s"
      then obtain row where r: "1 \<le> row" "row \<le> s" "row * (s + 1) + 1 \<le> p" "p < row * (s + 1) + 1 + s"
        by (auto simp: range2_def)
      have "p = row * (s + 1) + (p - row * (s + 1))" by simp
      moreover have "1 \<le> p - row * (s + 1)" "p - row * (s + 1) \<le> s" using r by linarith+
      ultimately show "on_board s p" using r(1,2) unfolding on_board_def
        by (intro bexI[of _ row] bexI[of _ "p - row * (s + 1)"]) auto
    next
      assume "on_board s p"
      then obtain r c where "1 \<le> r" "r \<le> s" "1 \<le> c" "c \<le> s" "p = r * (s + 1) + c"
        by (auto simp: on_board_def)
      then show "\<exists>row\<in>set (range2 1 (s + 1)). row * (s + 1) + 1 \<le> p \<and> p < row * (s + 1) + 1 + s"
        by (intro bexI[of _ r]) (auto simp: range2_def)
    qed
    from a(3) lt have "a ! nat p =
          (if \<exists>row\<in>set (range2 1 (s + 1)). row * (s + 1) + 1 \<le> int (nat p) \<and> int (nat p) < row * (s + 1) + 1 + s
           then EMPTY else ?a0 ! nat p)" by blast
    with eq p lt show ?thesis by simp
  qed
  have "fresh_cells s a" using len cells by (simp add: fresh_cells_def)
  moreover have "reset b s = calculate_rows_cols_diags (?b1\<lparr>board := a\<rparr>)"
    using a(1) mp_pos[of s] by (simp add: reset_def Let_def initialize_empty_points_def)
  ultimately show ?thesis by auto
qed

lemma shape_cell:
  assumes "shape_ok b" and "0 \<le> q" and "q < maxpoint b"
  shows "(board b ! nat q = BORDER) = (\<not> on_board (bsize b) q)"
  using assms unfolding shape_ok_def by blast

lemma shape_okI:
  assumes "2 \<le> bsize b" "NS b = bsize b + 1"
    "maxpoint b = bsize b * bsize b + 3 * (bsize b + 1)"
    "int (length (board b)) = maxpoint b" "is_black_white (current_player b)"
    "\<And>p. 0 \<le> p \<Longrightarrow> p < maxpoint b \<Longrightarrow>
        (board b ! nat p = BORDER) = (\<not> on_board (bsize b) p)"
  shows "shape_ok b"
  using assms unfolding shape_ok_def by blast

lemma shape_fields:
  assumes "shape_ok b"
  shows "2 \<le> bsize b" "NS b = bsize b + 1"
    "maxpoint b = bsize b * bsize b + 3 * (bsize b + 1)"
    "int (length (board b)) = maxpoint b" "is_black_white (current_player b)"
  using assms unfolding shape_ok_def by blast+


lemma init_unfold:
  assumes "GoBoard_init M s = Inr b"
  shows "2 \<le> s" "s \<le> M"
    "\<exists>a b1. fresh_cells s a \<and>
       calculate_rows_cols_diags
         (blank\<lparr>bsize := s, NS := s + 1, WE := 1, ko_recapture := None, last_move := None,
            last2_move := None, current_player := BLACK,
            maxpoint := s * s + 3 * (s + 1), board := a\<rparr>) = Inr b1
       \<and> calculate_rows_cols_diags b1 = Inr b"
proof -
  from assms show s: "2 \<le> s" "s \<le> M"
    by (auto simp: GoBoard_init_def split: if_splits)
  from reset_calc[of s blank] s obtain a where
    a: "fresh_cells s a" "reset blank s = calculate_rows_cols_diags
       (blank\<lparr>bsize := s, NS := s + 1, WE := 1, ko_recapture := None, last_move := None,
          last2_move := None, current_player := BLACK,
          maxpoint := s * s + 3 * (s + 1), board := a\<rparr>)"
    by auto
  from assms s obtain b1 where r: "reset blank s = Inr b1" and c2: "calculate_rows_cols_diags b1 = Inr b"
    by (auto simp: GoBoard_init_def split: sum.splits)
  from a(2) r have "calculate_rows_cols_diags
         (blank\<lparr>bsize := s, NS := s + 1, WE := 1, ko_recapture := None, last_move := None,
            last2_move := None, current_player := BLACK,
            maxpoint := s * s + 3 * (s + 1), board := a\<rparr>) = Inr b1" by simp
  with a(1) c2 show "\<exists>a b1. fresh_cells s a \<and>
       calculate_rows_cols_diags
         (blank\<lparr>bsize := s, NS := s + 1, WE := 1, ko_recapture := None, last_move := None,
            last2_move := None, current_player := BLACK,
            maxpoint := s * s + 3 * (s + 1), board := a\<rparr>) = Inr b1
       \<and> calculate_rows_cols_diags b1 = Inr b"
    by blast
qed

lemma init_fields:
  assumes "GoBoard_init M s = Inr b"
  shows "bsize b = s" "NS b = s + 1" "maxpoint b = s * s + 3 * (s + 1)"
    "fresh_cells s (board b)" "current_player b = BLACK" "2 \<le> s" "s \<le> M"
proof -
  from init_unfold[OF assms] obtain a b1 where
    a: "fresh_cells s a" and
    c1: "calculate_rows_cols_diags
         (blank\<lparr>bsize := s, NS := s + 1, WE := 1, ko_recapture := None, last_move := None,
            last2_move := None, current_player := BLACK,
            maxpoint := s * s + 3 * (s + 1), board := a\<rparr>) = Inr b1" and
    c2: "calculate_rows_cols_diags b1 = Inr b"
    by blast
  show "bsize b = s" "NS b = s + 1" "maxpoint b = s * s + 3 * (s + 1)"
    "fresh_cells s (board b)" "current_player b = BLACK"
    using a calculate_fields[OF c1] calculate_fields[OF c2] by simp_all
  show "2 \<le> s" "s \<le> M" using init_unfold(1,2)[OF assms] by simp_all
qed

lemma init_shape:
  assumes "GoBoard_init M s = Inr b"
  shows "shape_ok b"
proof (rule shape_okI)
  note f = init_fields[OF assms]
  show "2 \<le> bsize b" "NS b = bsize b + 1" "maxpoint b = bsize b * bsize b + 3 * (bsize b + 1)"
    "is_black_white (current_player b)"
    using f by (simp_all add: is_black_white_def)
  show "int (length (board b)) = maxpoint b" using f by (simp add: fresh_cells_def)
  fix p assume "0 \<le> p" "p < maxpoint b"
  with f have "board b ! nat p = (if on_board s p then EMPTY else BORDER)"
    unfolding fresh_cells_def by metis
  with f(1) show "(board b ! nat p = BORDER) = (\<not> on_board (bsize b) p)"
    by (simp add: color_defs)
qed

lemma init_small_lines:
  assumes "GoBoard_init M s = Inr b" and "s < 5"
  shows "rows b = None" "cols b = None" "diags b = None"
proof -
  from init_unfold[OF assms(1)] obtain a b1 where
    c1: "calculate_rows_cols_diags
         (blank\<lparr>bsize := s, NS := s + 1, WE := 1, ko_recapture := None, last_move := None,
            last2_move := None, current_player := BLACK,
            maxpoint := s * s + 3 * (s + 1), board := a\<rparr>) = Inr b1" and
    c2: "calculate_rows_cols_diags b1 = Inr b"
    by blast
  from c1 assms(2) have b1: "b1 = blank\<lparr>bsize := s, NS := s + 1, WE := 1, ko_recapture := None, last_move := None,
            last2_move := None, current_player := BLACK,
            maxpoint := s * s + 3 * (s + 1), board := a\<rparr>"
    by (simp add: calculate_rows_cols_diags_def)
  with c2 assms(2) have "b = b1" by (simp add: calculate_rows_cols_diags_def)
  with b1 show "rows b = None" "cols b = None" "diags b = None"
    by (simp_all add: blank_def)
qed

lemma init_small_succeeds:
  assumes "2 \<le> s" "s < 5" "s \<le> M"
  shows "\<exists>b. GoBoard_init M s = Inr b"
proof -
  from reset_calc[of s blank] assms obtain a where
    r: "reset blank s = calculate_rows_cols_diags
       (blank\<lparr>bsize := s, NS := s + 1, WE := 1, ko_recapture := None, last_move := None,
          last2_move := None, current_player := BLACK,
          maxpoint := s * s + 3 * (s + 1), board := a\<rparr>)"
    by auto
  then show ?thesis using assms
    by (simp add: GoBoard_init_def calculate_rows_cols_diags_def)
qed

section \<open>Playing a move\<close>

lemma play_moves_reachable:
  "b \<in> reachable M \<Longrightarrow> play_moves b ms = Inr b' \<Longrightarrow> b' \<in> reachable M"
proof (induction ms arbitrary: b)
  case Nil
  then show ?case by simp
next
  case (Cons mc ms)
  obtain m c where mc: "mc = (m, c)" by (cases mc)
  from Cons.prems(2) mc obtain b1 where
    step: "play_move b m c = Inr (True, b1)" and rest: "play_moves b1 ms = Inr b'"
    by (auto split: sum.splits if_splits)
  from Cons.prems(1) step have "b1 \<in> reachable M" by (rule reachable.played)
  with rest show ?case by (rule Cons.IH[rotated])
qed

lemma position_reachable: "position M sz ms = Inr b \<Longrightarrow> b \<in> reachable M"
  unfolding position_def
  by (auto split: sum.splits intro: play_moves_reachable reachable.created)

lemma play_move_fields:
  assumes "play_move b m c = Inr (ok, b')"
  shows "bsize b' = bsize b" "NS b' = NS b" "maxpoint b' = maxpoint b"
    "rows b' = rows b" "cols b' = cols b" "diags b' = diags b"
    "length (board b') = length (board b)" "WE b' = WE b"
  using assms
  by (auto simp: play_move_def put_def Let_def split: if_splits move.splits sum.splits)

lemma start5_position: "position 25 5 [] = Inr start5"
  by code_simp

lemma taken5_position: "position 25 5 [(Pt 7, BLACK)] = Inr taken5"
  by code_simp

text \<open>
  C4. A move on a point whose cell is not EMPTY, by BLACK or WHITE, returns False and
  leaves the whole board object as it was: the cells, the player to move, both remembered
  moves and the ko marker.
\<close>

theorem play_move_occupied:
  assumes "c = BLACK \<or> c = WHITE" and "get (board b) p = Inr v" and "v \<noteq> EMPTY"
  shows "play_move b (Pt p) c = Inr (False, b)"
  using assms by (simp add: play_move_def is_black_white_def)

theorem play_move_occupied_witness:
  "position 25 5 [(Pt 7, BLACK)] = Inr taken5 \<and> get (board taken5) 7 = Inr BLACK
   \<and> BLACK \<noteq> EMPTY \<and> play_move taken5 (Pt 7) WHITE = Inr (False, taken5)"
proof -
  have c: "WHITE = BLACK \<or> WHITE = WHITE" by simp
  have g: "get (board taken5) 7 = Inr BLACK" by code_simp
  have v: "BLACK \<noteq> EMPTY" by (simp add: color_defs)
  from play_move_occupied[OF c g v] g v taken5_position show ?thesis by simp
qed

text \<open>
  C3, as the code has it. A PASS by BLACK or WHITE returns True and leaves the cells as
  they were; the player to move becomes the opponent of the colour passed to the call,
  which is the opponent of the player to move before the call exactly when that player
  is the one passing.
\<close>

theorem play_move_pass:
  assumes "c = BLACK \<or> c = WHITE"
  shows "\<exists>b'. play_move b PASS c = Inr (True, b') \<and> board b' = board b
           \<and> current_player b' = opponent c
           \<and> (current_player b' = opponent (current_player b) \<longleftrightarrow> c = current_player b)"
  using assms by (auto simp: play_move_def is_black_white_def opponent_def)

theorem play_move_pass_witness:
  "(BLACK = BLACK \<or> BLACK = WHITE) \<and>
   (\<exists>b'. play_move start5 PASS BLACK = Inr (True, b') \<and> board b' = board start5
      \<and> current_player b' = opponent BLACK
      \<and> (current_player b' = opponent (current_player start5) \<longleftrightarrow> BLACK = current_player start5))"
proof -
  have c: "BLACK = BLACK \<or> BLACK = WHITE" by simp
  from play_move_pass[OF c, of start5] c show ?thesis by blast
qed

text \<open>
  On the new board of size 5 BLACK is to move. After WHITE passes, BLACK is still to
  move: the player to move has not become its opponent.
\<close>

theorem play_move_pass_counterexample:
  "position 25 5 [] = Inr start5 \<and> current_player start5 = BLACK
   \<and> play_move start5 PASS WHITE =
         Inr (True, start5\<lparr>ko_recapture := None, current_player := BLACK,
                            last2_move := None, last_move := Some PASS\<rparr>)
   \<and> opponent (current_player start5) = WHITE \<and> BLACK \<noteq> WHITE"
  by code_simp

section \<open>Reachable positions\<close>

lemma play_move_shape:
  assumes "shape_ok b" and "play_move b m c = Inr (ok, b')"
  shows "shape_ok b'"
proof (cases m)
  case PASS
  with assms show ?thesis
    by (auto simp: play_move_def shape_ok_def is_black_white_def opponent_def color_defs
        split: if_splits)
next
  case (Pt p)
  show ?thesis
  proof (cases ok)
    case False
    with assms Pt have "b' = b"
      by (auto simp: play_move_def split: if_splits sum.splits)
    with assms show ?thesis by simp
  next
    case True
    let ?n = "int (length (board b))"
    define j where "j = (if 0 \<le> p then nat p else nat (?n + p))"
    from assms(2) Pt True have c: "is_black_white c"
      by (auto simp: play_move_def split: if_splits)
    from assms(2) Pt True c have g: "get (board b) p = Inr EMPTY"
      by (auto simp: play_move_def split: if_splits sum.splits)
    then have j: "j < length (board b)" "board b ! j = EMPTY"
      by (auto simp: get_def Let_def j_def split: if_splits)
    from g have pt: "put (board b) p c = Inr ((board b)[j := c])"
      by (auto simp: get_def put_def Let_def j_def split: if_splits)
    from assms(2) Pt True c g pt have
      b': "b' = b\<lparr>board := (board b)[j := c], current_player := opponent c,
                   last2_move := last_move b, last_move := Some (Pt p)\<rparr>"
      by (simp add: play_move_def)
    have cp: "is_black_white (opponent c)"
      using c by (auto simp: is_black_white_def opponent_def color_defs)
    have len: "int (length (board b)) = maxpoint b" using assms(1) by (simp add: shape_ok_def)
    have cells: "((board b)[j := c] ! nat q = BORDER) = (\<not> on_board (bsize b) q)"
      if q: "0 \<le> q" "q < maxpoint b" for q
    proof (cases "nat q = j")
      case True
      have "on_board (bsize b) q"
        using shape_cell[OF assms(1) q] True j(2) by (auto simp: color_defs)
      with True j(1) c show ?thesis by (auto simp: is_black_white_def color_defs)
    next
      case False
      with shape_cell[OF assms(1) q] show ?thesis by auto
    qed
    show ?thesis
      by (rule shape_okI) (use shape_fields[OF assms(1)] cp cells in \<open>simp_all add: b'\<close>)
  qed
qed

lemma reachable_shape: "b \<in> reachable M \<Longrightarrow> shape_ok b"
  by (induction rule: reachable.induct) (auto intro: init_shape play_move_shape)

lemma reachable_lines:
  "b \<in> reachable M \<Longrightarrow>
     \<exists>b0. GoBoard_init M (bsize b) = Inr b0 \<and> rows b = rows b0 \<and> cols b = cols b0
          \<and> diags b = diags b0"
proof (induction rule: reachable.induct)
  case (created sz b)
  then show ?case using init_fields(1)[OF created] by auto
next
  case (played b m c b')
  then show ?case using play_move_fields[OF played(2)] by auto
qed

lemma small3_position: "position 25 3 [(Pt 5, BLACK)] = Inr small3"
  by code_simp

text \<open>
  C10. For a size from 2 to 4 (and not above MAXSIZE) the constructor succeeds; on every
  position of a board of that size the attributes \<^verbatim>\<open>rows\<close>, \<^verbatim>\<open>cols\<close> and
  \<^verbatim>\<open>diags\<close> do not exist, and \<^verbatim>\<open>detect_five_in_a_row\<close> returns no colour: it raises
  AttributeError.
\<close>

theorem detect_five_small_board:
  assumes "2 \<le> s" and "s \<le> 4" and "s \<le> M"
  shows "(\<exists>b. GoBoard_init M s = Inr b) \<and>
         (\<forall>b. b \<in> reachable M \<and> bsize b = s \<longrightarrow>
            rows b = None \<and> cols b = None \<and> diags b = None
            \<and> detect_five_in_a_row b = Inl AttributeError)"
proof -
  from assms have s5: "s < 5" by simp
  have built: "\<exists>b. GoBoard_init M s = Inr b"
    using assms(1) s5 assms(3) by (rule init_small_succeeds)
  have "rows b = None \<and> cols b = None \<and> diags b = None
            \<and> detect_five_in_a_row b = Inl AttributeError"
    if b: "b \<in> reachable M \<and> bsize b = s" for b
  proof -
    from b reachable_lines[of b M] obtain b0 where
      b0: "GoBoard_init M s = Inr b0" "rows b = rows b0" "cols b = cols b0" "diags b = diags b0"
      by auto
    from init_small_lines[OF b0(1) s5] b0 show ?thesis
      by (simp add: detect_five_in_a_row_def)
  qed
  with built show ?thesis by blast
qed

theorem detect_five_small_board_witness:
  "(2::int) \<le> 3 \<and> (3::int) \<le> 4 \<and> (3::int) \<le> 25
   \<and> position 25 3 [(Pt 5, BLACK)] = Inr small3 \<and> bsize small3 = 3
   \<and> (\<exists>b. GoBoard_init 25 3 = Inr b)
   \<and> rows small3 = None \<and> cols small3 = None \<and> diags small3 = None
   \<and> detect_five_in_a_row small3 = Inl AttributeError"
proof -
  have r: "small3 \<in> reachable 25" using small3_position by (rule position_reachable)
  have s: "bsize small3 = 3" by code_simp
  from detect_five_small_board[of 3 25] r s small3_position show ?thesis by simp
qed

section \<open>The probes stay inside the array\<close>

lemma get_in_range:
  assumes "0 \<le> q" and "q < int (length a)"
  shows "get a q = Inr (a ! nat q)"
  using assms by (simp add: get_def)

lemma probe_walk_on_board:
  assumes "shape_ok b" and "color \<noteq> BORDER" and "st \<noteq> 0"
    and "- (bsize b + 2) \<le> st" and "st \<le> bsize b + 2"
    and "on_board (bsize b) p"
  shows "\<exists>k q. probe_walk (board b) color st p = Inr (k, q, board b ! nat q) \<and> 0 \<le> k
           \<and> q = p + (k + 1) * st \<and> 0 \<le> q \<and> q < maxpoint b \<and> board b ! nat q \<noteq> color
           \<and> (\<forall>j. 1 \<le> j \<and> j \<le> k \<longrightarrow>
                 on_board (bsize b) (p + j * st) \<and> board b ! nat (p + j * st) = color)"
  using assms(2-6)
proof (induction "board b" color st p rule: probe_walk.induct)
  case (1 color st pos)
  note f = shape_fields[OF assms(1)]
  from "1.prems" have st: "color \<noteq> BORDER" "st \<noteq> 0" "- (bsize b + 2) \<le> st" "st \<le> bsize b + 2"
    and ob: "on_board (bsize b) pos" by simp_all
  from on_board_bounds[OF ob]
  have pb: "bsize b + 2 \<le> pos" "pos \<le> bsize b * bsize b + 2 * bsize b" by simp_all
  have rng: "0 \<le> pos + st" "pos + st < maxpoint b" using pb st f by simp_all
  then have g: "get (board b) (pos + st) = Inr (board b ! nat (pos + st))"
    using f by (intro get_in_range) simp_all
  show ?case
  proof (cases "board b ! nat (pos + st) = color")
    case False
    have "probe_walk (board b) color st pos = Inr (0, pos + st, board b ! nat (pos + st))"
      by (subst probe_walk.simps) (simp add: g False)
    with False rng show ?thesis by (intro exI[of _ 0] exI[of _ "pos + st"]) auto
  next
    case True
    with st(1) shape_cell[OF assms(1) rng] have ob': "on_board (bsize b) (pos + st)" by simp
    from "1.hyps"(1)[OF g True st(2) st(1,2,3,4) ob'] obtain k q where
      ih: "probe_walk (board b) color st (pos + st) = Inr (k, q, board b ! nat q)" "0 \<le> k"
        "q = pos + st + (k + 1) * st" "0 \<le> q" "q < maxpoint b" "board b ! nat q \<noteq> color"
        "\<forall>j. 1 \<le> j \<and> j \<le> k \<longrightarrow>
            on_board (bsize b) (pos + st + j * st) \<and> board b ! nat (pos + st + j * st) = color"
      by blast
    have w: "probe_walk (board b) color st pos = Inr (k + 1, q, board b ! nat q)"
      by (subst probe_walk.simps) (simp add: g True st(2) ih(1))
    have q: "q = pos + (k + 1 + 1) * st" using ih(3) by (simp add: algebra_simps)
    have mid: "on_board (bsize b) (pos + j * st) \<and> board b ! nat (pos + j * st) = color"
      if j: "1 \<le> j" "j \<le> k + 1" for j
    proof (cases "j = 1")
      case True
      with ob' \<open>board b ! nat (pos + st) = color\<close> show ?thesis by simp
    next
      case False
      with j have "1 \<le> j - 1" "j - 1 \<le> k" by simp_all
      with ih(7) have "on_board (bsize b) (pos + st + (j - 1) * st)
          \<and> board b ! nat (pos + st + (j - 1) * st) = color" by blast
      moreover have "pos + st + (j - 1) * st = pos + j * st" by (simp add: algebra_simps)
      ultimately show ?thesis by simp
    qed
    from w q ih(2,4,5,6) mid show ?thesis by (intro exI[of _ "k + 1"] exI[of _ q]) simp
  qed
qed


lemma init_cells:
  assumes "GoBoard_init M s = Inr b"
  shows "cells_ok b"
  unfolding cells_ok_def
proof
  fix x assume "x \<in> set (board b)"
  then obtain j where j: "j < length (board b)" "x = board b ! j"
    by (auto simp: in_set_conv_nth)
  note f = init_fields[OF assms]
  from j f(4) have "0 \<le> int j" "int j < s * s + 3 * (s + 1)" by (simp_all add: fresh_cells_def)
  with f(4) have "board b ! nat (int j) = (if on_board s (int j) then EMPTY else BORDER)"
    unfolding fresh_cells_def by blast
  with j show "x \<in> {EMPTY, BLACK, WHITE, BORDER}" by simp
qed

lemma play_move_board:
  assumes "play_move b m c = Inr (ok, b')"
  shows "board b' = board b \<or>
         (\<exists>j. j < length (board b) \<and> board b ! j = EMPTY \<and> is_black_white c
              \<and> board b' = (board b)[j := c])"
proof (cases m)
  case PASS
  with assms show ?thesis by (auto simp: play_move_def split: if_splits)
next
  case (Pt p)
  show ?thesis
  proof (cases ok)
    case False
    with assms Pt have "b' = b"
      by (auto simp: play_move_def split: if_splits sum.splits)
    then show ?thesis by simp
  next
    case True
    define j where "j = (if 0 \<le> p then nat p else nat (int (length (board b)) + p))"
    from assms Pt True have c: "is_black_white c"
      by (auto simp: play_move_def split: if_splits)
    from assms Pt True c have g: "get (board b) p = Inr EMPTY"
      by (auto simp: play_move_def split: if_splits sum.splits)
    then have j: "j < length (board b)" "board b ! j = EMPTY"
      by (auto simp: get_def Let_def j_def split: if_splits)
    from g have pt: "put (board b) p c = Inr ((board b)[j := c])"
      by (auto simp: get_def put_def Let_def j_def split: if_splits)
    from assms Pt True c g pt have "board b' = (board b)[j := c]"
      by (auto simp: play_move_def)
    with j c show ?thesis by blast
  qed
qed

lemma play_move_cells:
  assumes "cells_ok b" and "play_move b m c = Inr (ok, b')"
  shows "cells_ok b'"
proof -
  from play_move_board[OF assms(2)] consider "board b' = board b"
    | j where "is_black_white c" "board b' = (board b)[j := c]" by blast
  then show ?thesis
  proof cases
    case 1
    with assms(1) show ?thesis by (simp add: cells_ok_def)
  next
    case 2
    have "set ((board b)[j := c]) \<subseteq> insert c (set (board b))"
      by (rule set_update_subset_insert)
    with 2 assms(1) show ?thesis by (auto simp: cells_ok_def is_black_white_def)
  qed
qed

lemma reachable_cells: "b \<in> reachable M \<Longrightarrow> cells_ok b"
  by (induction rule: reachable.induct) (auto intro: init_cells play_move_cells)

lemma stride_bounds:
  assumes "shape_ok b"
    and "st \<in> {1, -1, NS b, - NS b, NS b + 1, - (NS b + 1), NS b - 1, - (NS b - 1)}"
  shows "st \<noteq> 0" "- (bsize b + 2) \<le> st" "st \<le> bsize b + 2"
  using assms(2) shape_fields(1,2)[OF assms(1)] by auto

lemma probe_on_board:
  assumes "shape_ok b" and "color \<noteq> BORDER"
    and "st \<in> {1, NS b, NS b + 1, NS b - 1}"
    and "on_board (bsize b) i"
  shows "\<exists>r. probe (board b) st i color = Inr r"
proof -
  note f = shape_fields[OF assms(1)]
  from on_board_bounds[OF assms(4)] f have "0 \<le> i" "i < int (length (board b))" by simp_all
  then have g: "get (board b) i = Inr (board b ! nat i)" by (rule get_in_range)
  have s1: "st \<in> {1, -1, NS b, - NS b, NS b + 1, - (NS b + 1), NS b - 1, - (NS b - 1)}"
    and s2: "- st \<in> {1, -1, NS b, - NS b, NS b + 1, - (NS b + 1), NS b - 1, - (NS b - 1)}"
    using assms(3) by auto
  from probe_walk_on_board[OF assms(1,2) stride_bounds[OF assms(1) s1] assms(4)]
  obtain r1 where w1: "probe_walk (board b) color st i = Inr r1" by blast
  from probe_walk_on_board[OF assms(1,2) stride_bounds[OF assms(1) s2] assms(4)]
  obtain r2 where w2: "probe_walk (board b) color (- st) i = Inr r2" by blast
  show ?thesis
    by (cases r1; cases r2) (simp add: probe_def g w1 w2)
qed

text \<open>
  C8, as the code has it. On a reachable position, from a point of the board (a cell that
  is not BORDER) and for a colour other than BORDER, the walk in each of the eight senses
  returns: it counts \<open>k\<close> cells of the colour and stops at the next cell, the first one
  that does not hold the colour; that cell holds EMPTY, a stone or BORDER. Every index
  read is an index of the array, and the four probes return without an exception.
\<close>

theorem probe_walks_in_bounds:
  assumes "b \<in> reachable M"
    and "0 \<le> i" and "i < maxpoint b" and "board b ! nat i \<noteq> BORDER"
    and "c \<noteq> BORDER"
    and "st \<in> {1, -1, NS b, - NS b, NS b + 1, - (NS b + 1), NS b - 1, - (NS b - 1)}"
  shows "(\<exists>k q v. probe_walk (board b) c st i = Inr (k, q, v) \<and> 0 \<le> k
            \<and> q = i + (k + 1) * st \<and> v = board b ! nat q
            \<and> v \<noteq> c \<and> v \<in> {EMPTY, BLACK, WHITE, BORDER}
            \<and> (\<forall>j\<in>{1..k + 1}. 0 \<le> i + j * st \<and> i + j * st < int (length (board b)))
            \<and> (\<forall>j\<in>{1..k}. board b ! nat (i + j * st) = c))
         \<and> (\<exists>r. checkrow b i c = Inr r) \<and> (\<exists>r. checkcol b i c = Inr r)
         \<and> (\<exists>r. checkd1 b i c = Inr r) \<and> (\<exists>r. checkd2 b i c = Inr r)"
proof -
  have sh: "shape_ok b" using assms(1) by (rule reachable_shape)
  note f = shape_fields[OF sh]
  have ob: "on_board (bsize b) i" using shape_cell[OF sh assms(2,3)] assms(4) by simp
  from probe_walk_on_board[OF sh assms(5) stride_bounds[OF sh assms(6)] ob]
  obtain k q where
    w: "probe_walk (board b) c st i = Inr (k, q, board b ! nat q)" "0 \<le> k"
      "q = i + (k + 1) * st" "0 \<le> q" "q < maxpoint b" "board b ! nat q \<noteq> c"
      "\<forall>j. 1 \<le> j \<and> j \<le> k \<longrightarrow>
          on_board (bsize b) (i + j * st) \<and> board b ! nat (i + j * st) = c"
    by blast
  have val: "board b ! nat q \<in> {EMPTY, BLACK, WHITE, BORDER}"
  proof -
    have "nat q < length (board b)" using w(4,5) f(4) by simp
    then have "board b ! nat q \<in> set (board b)" by (rule nth_mem)
    with reachable_cells[OF assms(1)] show ?thesis unfolding cells_ok_def by blast
  qed
  have inb: "0 \<le> i + j * st \<and> i + j * st < int (length (board b))" if j: "j \<in> {1..k + 1}" for j
  proof (cases "j = k + 1")
    case True
    with w(3,4,5) f(4) show ?thesis by simp
  next
    case False
    with j w(7) have "on_board (bsize b) (i + j * st)" by simp
    from on_board_bounds[OF this] f show ?thesis by simp
  qed
  have walk: "\<exists>k q v. probe_walk (board b) c st i = Inr (k, q, v) \<and> 0 \<le> k
            \<and> q = i + (k + 1) * st \<and> v = board b ! nat q
            \<and> v \<noteq> c \<and> v \<in> {EMPTY, BLACK, WHITE, BORDER}
            \<and> (\<forall>j\<in>{1..k + 1}. 0 \<le> i + j * st \<and> i + j * st < int (length (board b)))
            \<and> (\<forall>j\<in>{1..k}. board b ! nat (i + j * st) = c)"
    using w(1,2,3,6,7) val inb
    by (intro exI[of _ k] exI[of _ q] exI[of _ "board b ! nat q"]) auto
  have "\<exists>r. checkrow b i c = Inr r" "\<exists>r. checkcol b i c = Inr r"
    "\<exists>r. checkd1 b i c = Inr r" "\<exists>r. checkd2 b i c = Inr r"
    unfolding checkrow_def checkcol_def checkd1_def checkd2_def
    by (rule probe_on_board[OF sh assms(5) _ ob]; simp)+
  with walk show ?thesis by blast
qed

theorem probe_walks_in_bounds_witness:
  "taken5 \<in> reachable 25 \<and> (0::int) \<le> 8 \<and> 8 < maxpoint taken5
   \<and> board taken5 ! nat 8 \<noteq> BORDER \<and> BLACK \<noteq> BORDER \<and> NS taken5 = 6
   \<and> probe_walk (board taken5) BLACK (- 1) 8 = Inr (1, 6, BORDER)
   \<and> (\<exists>k q v. probe_walk (board taken5) BLACK (- 1) 8 = Inr (k, q, v) \<and> 0 \<le> k
            \<and> q = 8 + (k + 1) * (- 1) \<and> v = board taken5 ! nat q
            \<and> v \<noteq> BLACK \<and> v \<in> {EMPTY, BLACK, WHITE, BORDER}
            \<and> (\<forall>j\<in>{1..k + 1}. 0 \<le> 8 + j * (- 1) \<and> 8 + j * (- 1) < int (length (board taken5)))
            \<and> (\<forall>j\<in>{1..k}. board taken5 ! nat (8 + j * (- 1)) = BLACK))
   \<and> (\<exists>r. checkrow taken5 8 BLACK = Inr r) \<and> (\<exists>r. checkcol taken5 8 BLACK = Inr r)
   \<and> (\<exists>r. checkd1 taken5 8 BLACK = Inr r) \<and> (\<exists>r. checkd2 taken5 8 BLACK = Inr r)"
proof -
  have r: "taken5 \<in> reachable 25" using taken5_position by (rule position_reachable)
  have h: "(0::int) \<le> 8" "8 < maxpoint taken5" "board taken5 ! nat 8 \<noteq> BORDER"
    "BLACK \<noteq> BORDER" "NS taken5 = 6"
    "probe_walk (board taken5) BLACK (- 1) 8 = Inr (1, 6, BORDER)"
    by code_simp+
  have st: "(- 1::int) \<in> {1, -1, NS taken5, - NS taken5, NS taken5 + 1, - (NS taken5 + 1),
      NS taken5 - 1, - (NS taken5 - 1)}" by simp
  from probe_walks_in_bounds[OF r h(1,2,3,4) st] r h show ?thesis by blast
qed

text \<open>
  On the new board of size 5 the walk to the right from the first point stops at once,
  on the neighbouring cell, which is EMPTY: neither a stone nor BORDER.
\<close>

theorem probe_walk_stop_counterexample:
  "position 25 5 [] = Inr start5 \<and> get (board start5) 7 = Inr EMPTY
   \<and> probe_walk (board start5) BLACK 1 7 = Inr (0, 8, EMPTY)
   \<and> get (board start5) 8 = Inr EMPTY
   \<and> EMPTY \<noteq> BLACK \<and> EMPTY \<noteq> WHITE \<and> EMPTY \<noteq> BORDER"
  by code_simp

section \<open>The scenario on the board of size 9\<close>

text \<open>
  C7. On the board of size 9 with BLACK stones on row 5, columns 3 to 5 (points 53, 54
  and 55), nothing else on the board and BLACK to move, \<^verbatim>\<open>Win\<close> finds no point and
  \<^verbatim>\<open>OpenFour\<close> finds the points 52 and 56, columns 2 and 6 of row 5.
\<close>

theorem scenario9_win_open_four:
  "position 25 9
     [(Pt 53, BLACK), (PASS, WHITE), (Pt 54, BLACK), (PASS, WHITE), (Pt 55, BLACK), (PASS, WHITE)]
     = Inr scenario9
   \<and> bsize scenario9 = 9 \<and> NS scenario9 = 10 \<and> current_player scenario9 = BLACK
   \<and> where1d_eq (board scenario9) BLACK = [5 * 10 + 3, 5 * 10 + 4, 5 * 10 + 5]
   \<and> where1d_eq (board scenario9) WHITE = []
   \<and> length (where1d_eq (board scenario9) EMPTY) = 78
   \<and> Win scenario9 = Inr []
   \<and> OpenFour scenario9 = Inr [5 * 10 + 2, 5 * 10 + 6]"
  by code_simp

section \<open>The lines of a new board\<close>

lemma coord_unique:
  fixes r r' c c' N :: int
  assumes "r * N + c = r' * N + c'" and "0 \<le> c" "c < N" "0 \<le> c'" "c' < N"
  shows "r = r'" and "c = c'"
proof -
  have "(r * N + c) div N = r" using assms(2,3) by simp
  moreover have "(r' * N + c') div N = r'" using assms(4,5) by simp
  ultimately show "r = r'" using assms(1) by simp
  with assms(1) show "c = c'" by simp
qed

lemma on_boardI:
  assumes "1 \<le> r" "r \<le> s" "1 \<le> c" "c \<le> s"
  shows "on_board s (r * (s + 1) + c)"
  unfolding on_board_def using assms by (intro bexI[of _ r] bexI[of _ c]) simp_all

lemma on_board_coord:
  assumes "0 \<le> s" and "0 \<le> c" and "c \<le> s"
  shows "on_board s (r * (s + 1) + c) \<longleftrightarrow> 1 \<le> r \<and> r \<le> s \<and> 1 \<le> c"
proof
  assume "on_board s (r * (s + 1) + c)"
  then obtain r' c' where rc: "1 \<le> r'" "r' \<le> s" "1 \<le> c'" "c' \<le> s"
      "r * (s + 1) + c = r' * (s + 1) + c'"
    by (auto simp: on_board_def)
  from coord_unique[OF rc(5)] assms rc(3,4) have "r = r'" "c = c'" by simp_all
  with rc show "1 \<le> r \<and> r \<le> s \<and> 1 \<le> c" by simp
next
  assume "1 \<le> r \<and> r \<le> s \<and> 1 \<le> c"
  with assms show "on_board s (r * (s + 1) + c)" by (intro on_boardI) simp_all
qed

lemma fresh_get:
  assumes "fresh_cells s a" and "1 \<le> s"
    and "0 \<le> r" "r \<le> s + 1" "0 \<le> c" "c \<le> s + 1"
  shows "get a (r * (s + 1) + c) =
           Inr (if 1 \<le> r \<and> r \<le> s \<and> 1 \<le> c \<and> c \<le> s then EMPTY else BORDER)"
proof -
  let ?p = "r * (s + 1) + c"
  define q where "q = r * (s + 1)"
  have q0: "0 \<le> q" unfolding q_def using assms by simp
  have "r * (s + 1) \<le> (s + 1) * (s + 1)" using assms by (intro mult_right_mono) simp_all
  then have q1: "q \<le> s * s + 2 * s + 1" unfolding q_def by (simp add: algebra_simps)
  have "0 \<le> q + c" "q + c < s * s + 3 * (s + 1)" using q0 q1 assms by simp_all
  then have rng: "0 \<le> ?p" "?p < s * s + 3 * (s + 1)" unfolding q_def by simp_all
  with assms(1) have len: "?p < int (length a)" and
    cell: "a ! nat ?p = (if on_board s ?p then EMPTY else BORDER)"
    unfolding fresh_cells_def by simp_all
  have ob: "on_board s ?p \<longleftrightarrow> 1 \<le> r \<and> r \<le> s \<and> 1 \<le> c \<and> c \<le> s"
  proof (cases "c = s + 1")
    case False
    with assms on_board_coord[of s c r] show ?thesis by auto
  next
    case True
    then have "?p = (r + 1) * (s + 1) + 0" by (simp add: algebra_simps)
    with on_board_coord[of s 0 "r + 1"] assms True show ?thesis by simp
  qed
  from get_in_range[OF rng(1) len] cell ob show ?thesis by simp
qed

lemma walk_SE:
  assumes "fresh_cells s a" and "1 \<le> s"
    and "1 \<le> r" "r \<le> s + 1" "1 \<le> c" "c \<le> s + 1"
  shows "\<exists>l. diag_walk a (s + 2) (r * (s + 1) + c) = Inr l
           \<and> int (length l) = s + 1 - max r c \<and> (\<forall>p\<in>set l. on_board s p)"
  using assms(3-6)
proof (induction "nat (s + 1 - max r c)" arbitrary: r c)
  case 0
  then have nb: "\<not> (1 \<le> r \<and> r \<le> s \<and> 1 \<le> c \<and> c \<le> s)" by auto
  have "get a (r * (s + 1) + c) = Inr (if 1 \<le> r \<and> r \<le> s \<and> 1 \<le> c \<and> c \<le> s then EMPTY else BORDER)"
    using 0 by (intro fresh_get[OF assms(1,2)]) simp_all
  also have "(if 1 \<le> r \<and> r \<le> s \<and> 1 \<le> c \<and> c \<le> s then EMPTY else BORDER) = BORDER" using nb by (rule if_not_P)
  finally have g: "get a (r * (s + 1) + c) = Inr BORDER" .
  have "diag_walk a (s + 2) (r * (s + 1) + c) = Inr []"
    by (subst diag_walk.simps) (simp add: g color_defs)
  with 0 show ?case by auto
next
  case (Suc n)
  then have in_b: "1 \<le> r \<and> r \<le> s \<and> 1 \<le> c \<and> c \<le> s" by auto
  have "get a (r * (s + 1) + c) = Inr (if 1 \<le> r \<and> r \<le> s \<and> 1 \<le> c \<and> c \<le> s then EMPTY else BORDER)"
    using in_b by (intro fresh_get[OF assms(1,2)]) simp_all
  also have "(if 1 \<le> r \<and> r \<le> s \<and> 1 \<le> c \<and> c \<le> s then EMPTY else BORDER) = EMPTY" using in_b by (rule if_P)
  finally have g: "get a (r * (s + 1) + c) = Inr EMPTY" .
  have nxt: "r * (s + 1) + c + (s + 2) = (r + 1) * (s + 1) + (c + 1)" by (simp add: algebra_simps)
  have "n = nat (s + 1 - max (r + 1) (c + 1))" using Suc(2) by auto
  from Suc(1)[OF this] in_b obtain l where
    l: "diag_walk a (s + 2) ((r + 1) * (s + 1) + (c + 1)) = Inr l"
      "int (length l) = s + 1 - max (r + 1) (c + 1)" "\<forall>p\<in>set l. on_board s p"
    by auto
  have "diag_walk a (s + 2) (r * (s + 1) + c) = Inr ((r * (s + 1) + c) # l)"
    using assms(2) by (subst diag_walk.simps) (simp add: g nxt l(1))
  moreover have "on_board s (r * (s + 1) + c)" using in_b by (intro on_boardI) simp_all
  ultimately show ?case using l(2,3) in_b by auto
qed

lemma walk_NE:
  assumes "fresh_cells s a" and "1 \<le> s"
    and "0 \<le> r" "r \<le> s" "1 \<le> c" "c \<le> s + 1"
  shows "\<exists>l. diag_walk a (- 1 * (s + 1) + 1) (r * (s + 1) + c) = Inr l
           \<and> int (length l) = min r (s + 1 - c) \<and> (\<forall>p\<in>set l. on_board s p)"
  using assms(3-6)
proof (induction "nat (min r (s + 1 - c))" arbitrary: r c)
  case 0
  then have nb: "\<not> (1 \<le> r \<and> r \<le> s \<and> 1 \<le> c \<and> c \<le> s)" by auto
  have "get a (r * (s + 1) + c) = Inr (if 1 \<le> r \<and> r \<le> s \<and> 1 \<le> c \<and> c \<le> s then EMPTY else BORDER)"
    using 0 by (intro fresh_get[OF assms(1,2)]) simp_all
  also have "(if 1 \<le> r \<and> r \<le> s \<and> 1 \<le> c \<and> c \<le> s then EMPTY else BORDER) = BORDER" using nb by (rule if_not_P)
  finally have g: "get a (r * (s + 1) + c) = Inr BORDER" .
  have "diag_walk a (- 1 * (s + 1) + 1) (r * (s + 1) + c) = Inr []"
    by (subst diag_walk.simps) (simp add: g color_defs)
  with 0 show ?case by auto
next
  case (Suc n)
  then have in_b: "1 \<le> r \<and> r \<le> s \<and> 1 \<le> c \<and> c \<le> s" by auto
  have "get a (r * (s + 1) + c) = Inr (if 1 \<le> r \<and> r \<le> s \<and> 1 \<le> c \<and> c \<le> s then EMPTY else BORDER)"
    using in_b by (intro fresh_get[OF assms(1,2)]) simp_all
  also have "(if 1 \<le> r \<and> r \<le> s \<and> 1 \<le> c \<and> c \<le> s then EMPTY else BORDER) = EMPTY" using in_b by (rule if_P)
  finally have g: "get a (r * (s + 1) + c) = Inr EMPTY" .
  have nxt: "r * (s + 1) + c + (- 1 * (s + 1) + 1) = (r - 1) * (s + 1) + (c + 1)"
    by (simp add: algebra_simps)
  have "n = nat (min (r - 1) (s + 1 - (c + 1)))" using Suc(2) by auto
  from Suc(1)[OF this] in_b obtain l where
    l: "diag_walk a (- 1 * (s + 1) + 1) ((r - 1) * (s + 1) + (c + 1)) = Inr l"
      "int (length l) = min (r - 1) (s + 1 - (c + 1))" "\<forall>p\<in>set l. on_board s p"
    by auto
  have "diag_walk a (- 1 * (s + 1) + 1) (r * (s + 1) + c) = Inr ((r * (s + 1) + c) # l)"
    using assms(2) by (subst diag_walk.simps) (simp only: g nxt l(1), simp)
  moreover have "on_board s (r * (s + 1) + c)" using in_b by (intro on_boardI) simp_all
  ultimately show ?case using l(2,3) in_b by auto
qed

lemma filter_le_upto: "length (filter (\<lambda>i. i \<le> t) [a..b]) = nat (min b t - a + 1)"
proof (induction a b rule: upto.induct)
  case (1 i j)
  show ?case
  proof (cases "i \<le> j")
    case True
    with 1 show ?thesis by (subst upto_rec1) auto
  next
    case False
    then show ?thesis by simp
  qed
qed

lemma filter_ge_upto: "length (filter (\<lambda>i. t \<le> i) [a..b]) = nat (b - max a t + 1)"
proof (induction a b rule: upto.induct)
  case (1 i j)
  show ?case
  proof (cases "i \<le> j")
    case True
    with 1 show ?thesis by (subst upto_rec1) auto
  next
    case False
    then show ?thesis by simp
  qed
qed

lemma range_step_elems:
  assumes "0 < st" and "x \<in> set (range_step a b st)"
  shows "\<exists>k\<ge>0. x = a + k * st \<and> x < b"
  using assms
proof (induction a b st rule: range_step.induct)
  case (1 a b st)
  have unf: "range_step a b st = (if a < b then a # range_step (a + st) b st else [])"
    using "1.prems"(1) by (subst range_step.simps) simp
  from "1.prems"(2) have ab: "a < b" unfolding unf by (auto split: if_splits)
  from "1.prems"(2) ab have x: "x = a \<or> x \<in> set (range_step (a + st) b st)"
    unfolding unf by simp
  from x show ?case
  proof
    assume "x = a"
    with ab show ?thesis by (intro exI[of _ 0]) simp
  next
    assume "x \<in> set (range_step (a + st) b st)"
    with "1.IH"(1) "1.prems"(1) ab obtain k where "0 \<le> k" "x = a + st + k * st" "x < b" by auto
    then show ?thesis by (intro exI[of _ "k + 1"]) (simp add: algebra_simps)
  qed
qed

lemma range_step_rows:
  assumes "1 \<le> N"
  shows "range_step (r0 * N + 1) (s * N + 2) N = map (\<lambda>r. r * N + 1) [r0..s]"
proof (induction r0 s rule: upto.induct)
  case (1 i j)
  show ?case
  proof (cases "i \<le> j")
    case True
    then have "i * N \<le> j * N" using assms by (intro mult_right_mono) simp_all
    then have lt: "i * N + 1 < j * N + 2" by simp
    have nxt: "i * N + 1 + N = (i + 1) * N + 1" by (simp add: algebra_simps)
    show ?thesis
      using assms lt True "1"[OF True]
      by (subst range_step.simps, subst upto_rec1) (simp_all add: nxt)
  next
    case False
    then have "(j + 1) * N \<le> i * N" using assms by (intro mult_right_mono) simp_all
    then have "j * N + N \<le> i * N" by (simp add: algebra_simps)
    with assms have "\<not> i * N + 1 < j * N + 2" by simp
    with False assms show ?thesis by (subst range_step.simps) simp
  qed
qed

lemma points_on_snoc:
  "points_on s ls \<Longrightarrow> \<forall>p\<in>set l. on_board s p \<Longrightarrow> points_on s (ls @ [l])"
  by (auto simp: points_on_def)

lemma diag_loop_one_len:
  assumes "\<forall>x\<in>set xs. \<exists>l. diag_walk a st (g x) = Inr l \<and> int (length l) = f x
              \<and> (\<forall>p\<in>set l. on_board s p)"
    and "points_on s ds"
  shows "\<exists>ds'. diag_loop_one a st (map g xs) ds = Inr ds'
           \<and> length ds' = length ds + length (filter (\<lambda>x. 5 \<le> f x) xs)
           \<and> points_on s ds'"
  using assms
proof (induction xs arbitrary: ds)
  case Nil
  then show ?case by simp
next
  case (Cons x xs)
  from Cons.prems(1) obtain l where
    l: "diag_walk a st (g x) = Inr l" "int (length l) = f x" "\<forall>p\<in>set l. on_board s p"
    by auto
  let ?ds1 = "if length l \<ge> 5 then ds @ [l] else ds"
  have p1: "points_on s ?ds1" using Cons.prems(2) l(3) by (simp add: points_on_snoc)
  from Cons.prems(1) have rest: "\<forall>x\<in>set xs. \<exists>l. diag_walk a st (g x) = Inr l
      \<and> int (length l) = f x \<and> (\<forall>p\<in>set l. on_board s p)" by simp
  from Cons.IH[OF rest p1] obtain ds' where
    ds': "diag_loop_one a st (map g xs) ?ds1 = Inr ds'"
      "length ds' = length ?ds1 + length (filter (\<lambda>x. 5 \<le> f x) xs)" "points_on s ds'"
    by blast
  have five: "(5 \<le> f x) = (5 \<le> length l)" using l(2) by auto
  have "diag_loop_one a st (map g (x # xs)) ds = Inr ds'" using l(1) ds'(1) by simp
  moreover have "length ds' = length ds + length (filter (\<lambda>x. 5 \<le> f x) (x # xs))"
    using ds'(2) five by simp
  ultimately show ?case using ds'(3) by blast
qed

lemma diag_loop_two_len:
  assumes "\<forall>x\<in>set xs. \<exists>l. diag_walk a st1 (g x) = Inr l \<and> int (length l) = f x
              \<and> (\<forall>p\<in>set l. on_board s p)"
    and "\<forall>x\<in>set xs. \<exists>l. diag_walk a st2 (g x) = Inr l \<and> int (length l) = h x
              \<and> (\<forall>p\<in>set l. on_board s p)"
    and "points_on s ds"
  shows "\<exists>ds'. diag_loop_two a st1 st2 (map g xs) ds = Inr ds'
           \<and> length ds' = length ds + length (filter (\<lambda>x. 5 \<le> f x) xs)
                              + length (filter (\<lambda>x. 5 \<le> h x) xs)
           \<and> points_on s ds'"
  using assms
proof (induction xs arbitrary: ds)
  case Nil
  then show ?case by simp
next
  case (Cons x xs)
  from Cons.prems(1) obtain l1 where
    l1: "diag_walk a st1 (g x) = Inr l1" "int (length l1) = f x" "\<forall>p\<in>set l1. on_board s p"
    by auto
  from Cons.prems(2) obtain l2 where
    l2: "diag_walk a st2 (g x) = Inr l2" "int (length l2) = h x" "\<forall>p\<in>set l2. on_board s p"
    by auto
  let ?ds1 = "if length l1 \<ge> 5 then ds @ [l1] else ds"
  let ?ds2 = "if length l2 \<ge> 5 then ?ds1 @ [l2] else ?ds1"
  have p1: "points_on s ?ds1" using Cons.prems(3) l1(3) by (simp add: points_on_snoc)
  have p2: "points_on s ?ds2" using p1 l2(3) by (simp add: points_on_snoc)
  from Cons.prems(1) have r1: "\<forall>x\<in>set xs. \<exists>l. diag_walk a st1 (g x) = Inr l
      \<and> int (length l) = f x \<and> (\<forall>p\<in>set l. on_board s p)" by simp
  from Cons.prems(2) have r2: "\<forall>x\<in>set xs. \<exists>l. diag_walk a st2 (g x) = Inr l
      \<and> int (length l) = h x \<and> (\<forall>p\<in>set l. on_board s p)" by simp
  from Cons.IH[OF r1 r2 p2] obtain ds' where
    ds': "diag_loop_two a st1 st2 (map g xs) ?ds2 = Inr ds'"
      "length ds' = length ?ds2 + length (filter (\<lambda>x. 5 \<le> f x) xs)
                     + length (filter (\<lambda>x. 5 \<le> h x) xs)" "points_on s ds'"
    by blast
  have five: "(5 \<le> f x) = (5 \<le> length l1)" "(5 \<le> h x) = (5 \<le> length l2)"
    using l1(2) l2(2) by auto
  have "diag_loop_two a st1 st2 (map g (x # xs)) ds = Inr ds'"
    using l1(1) l2(1) ds'(1) by (simp add: Let_def)
  moreover have "length ds' = length ds + length (filter (\<lambda>x. 5 \<le> f x) (x # xs))
                              + length (filter (\<lambda>x. 5 \<le> h x) (x # xs))"
    using ds'(2) five by simp
  ultimately show ?case using ds'(3) by blast
qed

lemma rows_cols_loop_len:
  assumes "bsize b = s" "NS b = s + 1" "1 \<le> s"
    and "\<forall>i\<in>set xs. 1 \<le> i \<and> i \<le> s"
    and "points_on s rs" "points_on s cs"
  shows "\<exists>rs' cs'. rows_cols_loop b xs rs cs = Inr (rs', cs')
           \<and> length rs' = length rs + length xs \<and> length cs' = length cs + length xs
           \<and> points_on s rs' \<and> points_on s cs'"
  using assms(4-6)
proof (induction xs arbitrary: rs cs)
  case Nil
  then show ?case by simp
next
  case (Cons i xs)
  then have i: "1 \<le> i" "i \<le> s" by simp_all
  have rs_i: "row_start b i = Inr (i * (s + 1) + 1)"
    and rs_1: "row_start b 1 = Inr (s + 1 + 1)"
    and rs_s: "row_start b s = Inr (s * (s + 1) + 1)"
    using assms(1-3) i by (simp_all add: row_start_def)
  let ?row = "range2 (i * (s + 1) + 1) (i * (s + 1) + 1 + s)"
  let ?col = "range_step (s + 1 + 1 + i - 1) (s * (s + 1) + 1 + i) (s + 1)"
  have r3: "range3 (s + 1 + 1 + i - 1) (s * (s + 1) + 1 + i) (s + 1) = Inr ?col"
    using assms(3) by (simp add: range3_def)
  have prow: "\<forall>p\<in>set ?row. on_board s p"
  proof
    fix p assume "p \<in> set ?row"
    then have "i * (s + 1) + 1 \<le> p" "p \<le> i * (s + 1) + s" by (simp_all add: range2_def)
    then have "1 \<le> p - i * (s + 1)" "p - i * (s + 1) \<le> s" by simp_all
    from on_boardI[OF i this] show "on_board s p" by simp
  qed
  have pcol: "\<forall>p\<in>set ?col. on_board s p"
  proof
    fix p assume pc: "p \<in> set ?col"
    have "0 < s + 1" using assms(3) by simp
    from range_step_elems[OF this pc] obtain k where
      k: "0 \<le> k" "p = s + 1 + 1 + i - 1 + k * (s + 1)" "p < s * (s + 1) + 1 + i"
      by blast
    then have "(k + 1) * (s + 1) < s * (s + 1) + 1" by (simp add: algebra_simps)
    then have "(k + 1) * (s + 1) \<le> s * (s + 1)" by simp
    then have "k + 1 \<le> s" using assms(3) by simp
    from on_boardI[OF _ this i] k(1) have "on_board s ((k + 1) * (s + 1) + i)" by simp
    moreover have "p = (k + 1) * (s + 1) + i" using k(2) by (simp add: algebra_simps)
    ultimately show "on_board s p" by simp
  qed
  from Cons.prems have rest: "\<forall>i\<in>set xs. 1 \<le> i \<and> i \<le> s" by simp
  from Cons.IH[OF rest points_on_snoc[OF Cons.prems(2) prow] points_on_snoc[OF Cons.prems(3) pcol]]
  obtain rs' cs' where
    r: "rows_cols_loop b xs (rs @ [?row]) (cs @ [?col]) = Inr (rs', cs')"
      "length rs' = length (rs @ [?row]) + length xs"
      "length cs' = length (cs @ [?col]) + length xs"
      "points_on s rs'" "points_on s cs'"
    by blast
  have "rows_cols_loop b (i # xs) rs cs = Inr (rs', cs')"
    using assms(1,2) rs_i rs_1 rs_s r3 r(1) by (simp add: Let_def)
  with r(2-5) show ?case by simp
qed

lemma calc_lines:
  assumes fr: "fresh_cells (bsize b) (board b)" and ns: "NS b = bsize b + 1" and s5: "5 \<le> bsize b"
  shows "\<exists>rs cs ds. calculate_rows_cols_diags b
             = Inr (b\<lparr>rows := Some rs, cols := Some cs, diags := Some ds\<rparr>)
           \<and> int (length rs) = bsize b \<and> int (length cs) = bsize b
           \<and> int (length ds) = (2 * (bsize b - 5) + 1) * 2
           \<and> points_on (bsize b) rs \<and> points_on (bsize b) cs \<and> points_on (bsize b) ds"
proof -
  define s where "s = bsize b"
  define a where "a = board b"
  have s1: "1 \<le> s" and s5': "5 \<le> s" using s5 by (simp_all add: s_def)
  have fr': "fresh_cells s a" using fr by (simp add: s_def a_def)
  have bs: "bsize b = s" "NS b = s + 1" "board b = a" using ns by (simp_all add: s_def a_def)
  have pe: "points_on s []" by (simp add: points_on_def)
  \<comment> \<open>rows and columns\<close>
  have "\<forall>i\<in>set (range2 1 (s + 1)). 1 \<le> i \<and> i \<le> s" by (simp add: range2_def)
  from rows_cols_loop_len[OF bs(1,2) s1 this pe pe] obtain rs cs where
    rc: "rows_cols_loop b (range2 1 (s + 1)) [] [] = Inr (rs, cs)"
      "length rs = length (range2 1 (s + 1))" "length cs = length (range2 1 (s + 1))"
      "points_on s rs" "points_on s cs"
    by auto
  have lrc: "int (length rs) = s" "int (length cs) = s" using rc(2,3) s1 by (simp_all add: range2_def)
  have rs_1: "row_start b 1 = Inr (s + 2)" and rs_s: "row_start b s = Inr (s * (s + 1) + 1)"
    using bs s1 by (simp_all add: row_start_def)
  \<comment> \<open>first loop\<close>
  have w1: "\<forall>i\<in>set (range2 (s + 2) (s + 2 + s)).
      \<exists>l. diag_walk a (s + 2) ((\<lambda>x. x) i) = Inr l \<and> int (length l) = 2 * s + 2 - i
          \<and> (\<forall>p\<in>set l. on_board s p)"
  proof
    fix i assume "i \<in> set (range2 (s + 2) (s + 2 + s))"
    then have i: "s + 2 \<le> i" "i \<le> 2 * s + 1" by (simp_all add: range2_def)
    from walk_SE[OF fr' s1, of 1 "i - (s + 1)"] i obtain l where
      "diag_walk a (s + 2) (1 * (s + 1) + (i - (s + 1))) = Inr l"
      "int (length l) = s + 1 - max 1 (i - (s + 1))" "\<forall>p\<in>set l. on_board s p"
      by auto
    with i show "\<exists>l. diag_walk a (s + 2) ((\<lambda>x. x) i) = Inr l \<and> int (length l) = 2 * s + 2 - i
          \<and> (\<forall>p\<in>set l. on_board s p)" by (intro exI[of _ l]) simp
  qed
  from diag_loop_one_len[OF w1 pe] obtain ds1 where
    d1: "diag_loop_one a (s + 2) (range2 (s + 2) (s + 2 + s)) [] = Inr ds1"
      "length ds1 = length (filter (\<lambda>i. 5 \<le> 2 * s + 2 - i) (range2 (s + 2) (s + 2 + s)))"
      "points_on s ds1"
    by auto
  have "(\<lambda>i. 5 \<le> 2 * s + 2 - i) = (\<lambda>i. i \<le> 2 * s - 3)" by auto
  then have n1: "int (length ds1) = s - 4"
    using d1(2) s5' by (simp add: range2_def filter_le_upto)
  \<comment> \<open>second loop\<close>
  have firsts: "range3 (s + 2 + (s + 1)) (s * (s + 1) + 1 + 1) (s + 1)
      = Inr (map (\<lambda>r. r * (s + 1) + 1) [2..s])"
  proof -
    have step: "range_step (2 * (s + 1) + 1) (s * (s + 1) + 2) (s + 1) = map (\<lambda>r. r * (s + 1) + 1) [2..s]"
      using s1 by (intro range_step_rows) simp
    have e: "s + 2 + (s + 1) = 2 * (s + 1) + 1" "s * (s + 1) + 1 + 1 = s * (s + 1) + 2" by simp_all
    have ne: "(s + 1 = 0) = False" using s1 by simp
    show ?thesis unfolding range3_def e by (simp only: ne if_False step)
  qed
  have w2: "\<forall>r\<in>set [2..s]. \<exists>l. diag_walk a (s + 2) (r * (s + 1) + 1) = Inr l
      \<and> int (length l) = s + 1 - r \<and> (\<forall>p\<in>set l. on_board s p)"
  proof
    fix r assume "r \<in> set [2..s]"
    then have r: "2 \<le> r" "r \<le> s" by simp_all
    from walk_SE[OF fr' s1, of r 1] r obtain l where
      "diag_walk a (s + 2) (r * (s + 1) + 1) = Inr l"
      "int (length l) = s + 1 - max r 1" "\<forall>p\<in>set l. on_board s p"
      by auto
    with r show "\<exists>l. diag_walk a (s + 2) (r * (s + 1) + 1) = Inr l
      \<and> int (length l) = s + 1 - r \<and> (\<forall>p\<in>set l. on_board s p)" by (intro exI[of _ l]) simp
  qed
  have w3: "\<forall>r\<in>set [2..s]. \<exists>l. diag_walk a (- 1 * (s + 1) + 1) (r * (s + 1) + 1) = Inr l
      \<and> int (length l) = r \<and> (\<forall>p\<in>set l. on_board s p)"
  proof
    fix r assume "r \<in> set [2..s]"
    then have r: "2 \<le> r" "r \<le> s" by simp_all
    from walk_NE[OF fr' s1, of r 1] r obtain l where
      "diag_walk a (- 1 * (s + 1) + 1) (r * (s + 1) + 1) = Inr l"
      "int (length l) = min r (s + 1 - 1)" "\<forall>p\<in>set l. on_board s p"
      by auto
    with r show "\<exists>l. diag_walk a (- 1 * (s + 1) + 1) (r * (s + 1) + 1) = Inr l
      \<and> int (length l) = r \<and> (\<forall>p\<in>set l. on_board s p)" by (intro exI[of _ l]) simp
  qed
  from diag_loop_two_len[OF w2 w3 d1(3)] obtain ds2 where
    d2: "diag_loop_two a (s + 2) (- 1 * (s + 1) + 1) (map (\<lambda>r. r * (s + 1) + 1) [2..s]) ds1 = Inr ds2"
      "length ds2 = length ds1 + length (filter (\<lambda>r. 5 \<le> s + 1 - r) [2..s])
                      + length (filter (\<lambda>r. 5 \<le> r) [2..s])"
      "points_on s ds2"
    by blast
  have "(\<lambda>r. 5 \<le> s + 1 - r) = (\<lambda>r. r \<le> s - 4)" by auto
  then have n2: "int (length ds2) = (s - 4) + (s - 5) + (s - 4)"
    using d2(2) n1 s5' by (simp add: filter_le_upto filter_ge_upto)
  \<comment> \<open>third loop\<close>
  have w4: "\<forall>i\<in>set (range2 (s * (s + 1) + 1 + 1) (s * (s + 1) + 1 + 1 + s)).
      \<exists>l. diag_walk a (- 1 * (s + 1) + 1) ((\<lambda>x. x) i) = Inr l
          \<and> int (length l) = s * (s + 1) + s + 1 - i \<and> (\<forall>p\<in>set l. on_board s p)"
  proof
    fix i assume "i \<in> set (range2 (s * (s + 1) + 1 + 1) (s * (s + 1) + 1 + 1 + s))"
    then have i: "s * (s + 1) + 2 \<le> i" "i \<le> s * (s + 1) + 1 + s" by (simp_all add: range2_def)
    from walk_NE[OF fr' s1, of s "i - s * (s + 1)"] i s1 obtain l where
      "diag_walk a (- 1 * (s + 1) + 1) (s * (s + 1) + (i - s * (s + 1))) = Inr l"
      "int (length l) = min s (s + 1 - (i - s * (s + 1)))" "\<forall>p\<in>set l. on_board s p"
      by auto
    with i show "\<exists>l. diag_walk a (- 1 * (s + 1) + 1) ((\<lambda>x. x) i) = Inr l
          \<and> int (length l) = s * (s + 1) + s + 1 - i \<and> (\<forall>p\<in>set l. on_board s p)"
      by (intro exI[of _ l]) simp
  qed
  from diag_loop_one_len[OF w4 d2(3)] obtain ds3 where
    d3: "diag_loop_one a (- 1 * (s + 1) + 1)
           (range2 (s * (s + 1) + 1 + 1) (s * (s + 1) + 1 + 1 + s)) ds2 = Inr ds3"
      "length ds3 = length ds2 + length (filter (\<lambda>i. 5 \<le> s * (s + 1) + s + 1 - i)
          (range2 (s * (s + 1) + 1 + 1) (s * (s + 1) + 1 + 1 + s)))"
      "points_on s ds3"
    by auto
  have "(\<lambda>i. 5 \<le> s * (s + 1) + s + 1 - i) = (\<lambda>i. i \<le> s * (s + 1) + s - 4)" by auto
  then have n3: "int (length ds3) = (2 * (s - 5) + 1) * 2"
    using d3(2) n2 s5' by (simp add: range2_def filter_le_upto)
  have ns5: "(s < 5) = False" using s5' by simp
  have eq1: "s + 1 + 1 = s + 2" by simp
  have "calculate_rows_cols_diags b = Inr (b\<lparr>rows := Some rs, cols := Some cs, diags := Some ds3\<rparr>)"
    unfolding calculate_rows_cols_diags_def bs
    by (simp only: ns5 if_False rc(1) sum.case prod.case rs_1 rs_s eq1 d1(1) firsts d2(1) d3(1)
        lrc n3 simp_thms)
  with lrc n3 rc(4,5) d3(3) show ?thesis unfolding bs by blast
qed

lemma reset_big:
  assumes "5 \<le> s"
  shows "\<exists>b' rs cs ds. reset b0 s = Inr b' \<and> bsize b' = s \<and> NS b' = s + 1
           \<and> fresh_cells s (board b')
           \<and> rows b' = Some rs \<and> cols b' = Some cs \<and> diags b' = Some ds
           \<and> int (length rs) = s \<and> int (length cs) = s
           \<and> int (length ds) = (2 * (s - 5) + 1) * 2
           \<and> points_on s rs \<and> points_on s cs \<and> points_on s ds"
proof -
  from reset_calc[of s b0] assms obtain a where
    a: "fresh_cells s a" and
    r: "reset b0 s = calculate_rows_cols_diags
       (b0\<lparr>bsize := s, NS := s + 1, WE := 1, ko_recapture := None, last_move := None,
          last2_move := None, current_player := BLACK,
          maxpoint := s * s + 3 * (s + 1), board := a\<rparr>)"
    by auto
  let ?b1 = "b0\<lparr>bsize := s, NS := s + 1, WE := 1, ko_recapture := None, last_move := None,
          last2_move := None, current_player := BLACK,
          maxpoint := s * s + 3 * (s + 1), board := a\<rparr>"
  have "fresh_cells (bsize ?b1) (board ?b1)" "NS ?b1 = bsize ?b1 + 1" "5 \<le> bsize ?b1"
    using a assms by simp_all
  from calc_lines[OF this] obtain rs cs ds where
    c: "calculate_rows_cols_diags ?b1 = Inr (?b1\<lparr>rows := Some rs, cols := Some cs, diags := Some ds\<rparr>)"
      "int (length rs) = s" "int (length cs) = s" "int (length ds) = (2 * (s - 5) + 1) * 2"
      "points_on s rs" "points_on s cs" "points_on s ds"
    by auto
  show ?thesis
    using r c a
    by (intro exI[of _ "?b1\<lparr>rows := Some rs, cols := Some cs, diags := Some ds\<rparr>"]
        exI[of _ rs] exI[of _ cs] exI[of _ ds]) simp
qed

lemma init_big:
  assumes "5 \<le> s" and "s \<le> M"
  shows "\<exists>b rs cs ds. GoBoard_init M s = Inr b
           \<and> rows b = Some rs \<and> cols b = Some cs \<and> diags b = Some ds
           \<and> int (length rs) = s \<and> int (length cs) = s
           \<and> int (length ds) = (2 * (s - 5) + 1) * 2
           \<and> points_on s rs \<and> points_on s cs \<and> points_on s ds"
proof -
  from reset_big[OF assms(1), of blank] obtain b1 where
    b1: "reset blank s = Inr b1" "bsize b1 = s" "NS b1 = s + 1" "fresh_cells s (board b1)"
    by blast
  have "fresh_cells (bsize b1) (board b1)" "NS b1 = bsize b1 + 1" "5 \<le> bsize b1"
    using b1 assms by simp_all
  from calc_lines[OF this] b1(2) obtain rs cs ds where
    c: "calculate_rows_cols_diags b1 = Inr (b1\<lparr>rows := Some rs, cols := Some cs, diags := Some ds\<rparr>)"
      "int (length rs) = s" "int (length cs) = s" "int (length ds) = (2 * (s - 5) + 1) * 2"
      "points_on s rs" "points_on s cs" "points_on s ds"
    by auto
  have g: "GoBoard_init M s = Inr (b1\<lparr>rows := Some rs, cols := Some cs, diags := Some ds\<rparr>)"
    using assms b1(1) c(1) by (simp add: GoBoard_init_def)
  show ?thesis
    using g c(2-)
    by (intro exI[of _ "b1\<lparr>rows := Some rs, cols := Some cs, diags := Some ds\<rparr>"]
        exI[of _ rs] exI[of _ cs] exI[of _ ds]) simp
qed

lemma reset_small:
  assumes "0 \<le> t" and "t < 5"
  shows "\<exists>b'. reset b0 t = Inr b' \<and> rows b' = rows b0 \<and> cols b' = cols b0 \<and> diags b' = diags b0"
proof -
  from reset_calc[of t b0] assms obtain a where
    r: "reset b0 t = calculate_rows_cols_diags
       (b0\<lparr>bsize := t, NS := t + 1, WE := 1, ko_recapture := None, last_move := None,
          last2_move := None, current_player := BLACK,
          maxpoint := t * t + 3 * (t + 1), board := a\<rparr>)"
    by auto
  then show ?thesis using assms(2) by (simp add: calculate_rows_cols_diags_def)
qed

text \<open>
  C5. For a size \<open>s\<close> from 5 (up to MAXSIZE for the constructor) the constructor and
  \<^verbatim>\<open>reset\<close> succeed and leave \<open>(2 (s - 5) + 1) 2\<close> diagonals, \<open>s\<close> rows and \<open>s\<close>
  columns. For a size \<open>t\<close> from 2 to 4 nothing is derived: the constructor leaves the
  three attributes missing and \<^verbatim>\<open>reset\<close> leaves them as they were. \<^verbatim>\<open>play_move\<close>,
  the one operation that changes a board, never changes the three lists.
\<close>

theorem line_counts:
  "(5 \<le> s \<and> s \<le> M \<longrightarrow>
      (\<exists>b rs cs ds. GoBoard_init M s = Inr b
          \<and> rows b = Some rs \<and> cols b = Some cs \<and> diags b = Some ds
          \<and> int (length ds) = (2 * (s - 5) + 1) * 2
          \<and> int (length rs) = s \<and> int (length cs) = s))
   \<and> (5 \<le> s \<longrightarrow>
      (\<exists>b' rs cs ds. reset b0 s = Inr b'
          \<and> rows b' = Some rs \<and> cols b' = Some cs \<and> diags b' = Some ds
          \<and> int (length ds) = (2 * (s - 5) + 1) * 2
          \<and> int (length rs) = s \<and> int (length cs) = s))
   \<and> (2 \<le> t \<and> t < 5 \<and> t \<le> M \<longrightarrow>
      (\<exists>b. GoBoard_init M t = Inr b \<and> rows b = None \<and> cols b = None \<and> diags b = None))
   \<and> (2 \<le> t \<and> t < 5 \<longrightarrow>
      (\<exists>b'. reset b0 t = Inr b' \<and> rows b' = rows b0 \<and> cols b' = cols b0
          \<and> diags b' = diags b0))
   \<and> (play_move b m c = Inr (ok, b1) \<longrightarrow>
      rows b1 = rows b \<and> cols b1 = cols b \<and> diags b1 = diags b)"
proof -
  have big: "\<exists>b rs cs ds. GoBoard_init M s = Inr b
          \<and> rows b = Some rs \<and> cols b = Some cs \<and> diags b = Some ds
          \<and> int (length ds) = (2 * (s - 5) + 1) * 2
          \<and> int (length rs) = s \<and> int (length cs) = s" if "5 \<le> s \<and> s \<le> M"
  proof -
    from that have "5 \<le> s" "s \<le> M" by simp_all
    from init_big[OF this] show ?thesis by blast
  qed
  have big_reset: "\<exists>b' rs cs ds. reset b0 s = Inr b'
          \<and> rows b' = Some rs \<and> cols b' = Some cs \<and> diags b' = Some ds
          \<and> int (length ds) = (2 * (s - 5) + 1) * 2
          \<and> int (length rs) = s \<and> int (length cs) = s" if "5 \<le> s"
    using reset_big[OF that, of b0] by blast
  have small: "\<exists>b. GoBoard_init M t = Inr b \<and> rows b = None \<and> cols b = None \<and> diags b = None"
    if t: "2 \<le> t \<and> t < 5 \<and> t \<le> M"
  proof -
    from t obtain b where b: "GoBoard_init M t = Inr b" using init_small_succeeds[of t M] by auto
    from init_small_lines[OF b] t b show ?thesis by auto
  qed
  have small_reset: "\<exists>b'. reset b0 t = Inr b' \<and> rows b' = rows b0 \<and> cols b' = cols b0
          \<and> diags b' = diags b0" if "2 \<le> t \<and> t < 5"
  proof -
    from that have "0 \<le> t" "t < 5" by simp_all
    then show ?thesis by (rule reset_small)
  qed
  have moved: "rows b1 = rows b \<and> cols b1 = cols b \<and> diags b1 = diags b"
    if "play_move b m c = Inr (ok, b1)"
    using play_move_fields[OF that] by simp
  from big big_reset small small_reset moved show ?thesis by blast
qed

theorem line_counts_witness:
  "(5::int) \<le> 5 \<and> (5::int) \<le> 25
   \<and> (\<exists>b rs cs ds. GoBoard_init 25 5 = Inr b
          \<and> rows b = Some rs \<and> cols b = Some cs \<and> diags b = Some ds
          \<and> int (length ds) = (2 * (5 - 5) + 1) * 2
          \<and> int (length rs) = 5 \<and> int (length cs) = 5)
   \<and> (\<exists>b' rs cs ds. reset taken5 5 = Inr b'
          \<and> rows b' = Some rs \<and> cols b' = Some cs \<and> diags b' = Some ds
          \<and> int (length ds) = (2 * (5 - 5) + 1) * 2
          \<and> int (length rs) = 5 \<and> int (length cs) = 5)
   \<and> (2::int) \<le> 3 \<and> (3::int) < 5 \<and> (3::int) \<le> 25
   \<and> (\<exists>b. GoBoard_init 25 3 = Inr b \<and> rows b = None \<and> cols b = None \<and> diags b = None)
   \<and> (\<exists>b'. reset taken5 3 = Inr b' \<and> rows b' = rows taken5 \<and> cols b' = cols taken5
          \<and> diags b' = diags taken5)
   \<and> play_move start5 (Pt 7) BLACK = Inr (True, taken5)
   \<and> rows taken5 = rows start5 \<and> cols taken5 = cols start5 \<and> diags taken5 = diags start5
   \<and> diags start5 = Some [[7, 14, 21, 28, 35], [31, 26, 21, 16, 11]]"
proof -
  have pm: "play_move start5 (Pt 7) BLACK = Inr (True, taken5)" by code_simp
  have d: "diags start5 = Some [[7, 14, 21, 28, 35], [31, 26, 21, 16, 11]]" by code_simp
  from line_counts[of 5 25 taken5 3 start5 "Pt 7" BLACK True taken5] pm d
  show ?thesis by auto
qed

section \<open>Detecting five in a row\<close>

lemma first_five_skip:
  assumes "v \<noteq> prev" and "prev \<noteq> EMPTY \<longrightarrow> n < 5"
  shows "first_five (replicate n prev @ v # cs) = first_five (v # cs)"
  using assms(2)
proof (induction n)
  case 0
  then show ?case by simp
next
  case (Suc n)
  have "\<not> (prev \<noteq> EMPTY \<and> 4 \<le> length (replicate n prev @ v # cs)
          \<and> (\<forall>y\<in>set (take 4 (replicate n prev @ v # cs)). y = prev))"
  proof (cases "prev = EMPTY")
    case True
    then show ?thesis by simp
  next
    case False
    with Suc.prems have n4: "n < 4" by simp
    then have len: "n < length (take 4 (replicate n prev @ v # cs))" by simp
    have "take 4 (replicate n prev @ v # cs) ! n = v" using n4 by (simp add: nth_append)
    with nth_mem[OF len] have "v \<in> set (take 4 (replicate n prev @ v # cs))" by simp
    with assms(1) show ?thesis by blast
  qed
  then have "first_five (prev # (replicate n prev @ v # cs)) = first_five (replicate n prev @ v # cs)"
    unfolding first_five.simps(2) by (rule if_not_P)
  moreover have "replicate (Suc n) prev @ v # cs = prev # (replicate n prev @ v # cs)" by simp
  moreover have "prev \<noteq> EMPTY \<longrightarrow> n < 5" using Suc.prems by auto
  then have "first_five (replicate n prev @ v # cs) = first_five (v # cs)" by (rule Suc.IH)
  ultimately show ?case by (simp only:)
qed

lemma first_five_win:
  assumes "prev \<noteq> EMPTY"
  shows "first_five (replicate 4 prev @ prev # cs) = prev"
proof -
  have "replicate 4 prev @ prev # cs = prev # (replicate 3 prev @ prev # cs)"
    by (simp add: numeral_eq_Suc)
  moreover have "set (take 4 (replicate 3 prev @ prev # cs)) = {prev}"
    by (simp add: numeral_eq_Suc)
  ultimately show ?thesis using assms by simp
qed

lemma has_five_step_same:
  assumes "get a stone = Inr prev"
  shows "has_five_loop a prev counter (stone # rest)
           = (if counter + 1 = 5 \<and> prev \<noteq> EMPTY then Inr prev
              else has_five_loop a prev (counter + 1) rest)"
  using assms by (simp add: Let_def)

lemma has_five_step_diff:
  assumes "get a stone = Inr v" and "v \<noteq> prev"
  shows "has_five_loop a prev counter (stone # rest) = has_five_loop a v 1 rest"
  using assms by (simp add: Let_def)

lemma has_five_loop_colors:
  assumes "\<forall>p\<in>set l. 0 \<le> p \<and> p < int (length a)"
    and "0 \<le> counter" and "prev \<noteq> EMPTY \<longrightarrow> counter < 5"
  shows "has_five_loop a prev counter l
           = Inr (first_five (replicate (nat counter) prev @ map (\<lambda>p. a ! nat p) l))"
  using assms
proof (induction l arbitrary: prev counter)
  case Nil
  have "first_five (replicate n prev) = EMPTY" if "prev \<noteq> EMPTY \<longrightarrow> n < 5" for n
    using that
  proof (induction n)
    case 0
    then show ?case by simp
  next
    case (Suc n)
    then show ?case by auto
  qed
  moreover have "prev \<noteq> EMPTY \<longrightarrow> nat counter < 5" using Nil by auto
  ultimately have "first_five (replicate (nat counter) prev) = EMPTY" by blast
  then show ?case by simp
next
  case (Cons stone rest)
  then have g: "get a stone = Inr (a ! nat stone)" by (intro get_in_range) simp_all
  from Cons.prems(1) have rest: "\<forall>p\<in>set rest. 0 \<le> p \<and> p < int (length a)" by simp
  let ?v = "a ! nat stone"
  let ?cs = "map (\<lambda>p. a ! nat p) rest"
  show ?case
  proof (cases "?v = prev")
    case same: True
    have rhs: "map (\<lambda>p. a ! nat p) (stone # rest) = prev # ?cs" using same by simp
    have g': "get a stone = Inr prev" using g same by simp
    show ?thesis
    proof (cases "counter + 1 = 5 \<and> prev \<noteq> EMPTY")
      case True
      then have c4: "nat counter = 4" by simp
      have "has_five_loop a prev counter (stone # rest) = Inr prev"
        unfolding has_five_step_same[OF g'] using True by (rule if_P)
      moreover have "first_five (replicate (nat counter) prev @ prev # ?cs) = prev"
        unfolding c4 using True by (intro first_five_win) simp
      ultimately show ?thesis unfolding rhs by (simp only:)
    next
      case False
      with Cons.prems(3) have pre: "prev \<noteq> EMPTY \<longrightarrow> counter + 1 < 5" by auto
      have "0 \<le> counter + 1" using Cons.prems(2) by simp
      from Cons.IH[OF rest this pre]
      have ih: "has_five_loop a prev (counter + 1) rest
              = Inr (first_five (replicate (nat (counter + 1)) prev @ ?cs))" .
      have eq: "replicate (nat (counter + 1)) prev @ ?cs
            = replicate (nat counter) prev @ prev # ?cs"
        using Cons.prems(2) by (simp add: nat_add_distrib replicate_append_same)
      have step: "has_five_loop a prev counter (stone # rest)
            = has_five_loop a prev (counter + 1) rest"
        unfolding has_five_step_same[OF g'] using False by (rule if_not_P)
      show ?thesis unfolding step rhs ih eq by (rule refl)
    qed
  next
    case diff: False
    have rhs: "map (\<lambda>p. a ! nat p) (stone # rest) = ?v # ?cs" by simp
    have "(0::int) \<le> 1" "?v \<noteq> EMPTY \<longrightarrow> (1::int) < 5" by simp_all
    from Cons.IH[OF rest this]
    have "has_five_loop a ?v 1 rest = Inr (first_five (replicate (nat 1) ?v @ ?cs))" .
    then have ih: "has_five_loop a ?v 1 rest = Inr (first_five (?v # ?cs))" by simp
    have pre: "prev \<noteq> EMPTY \<longrightarrow> nat counter < 5" using Cons.prems(3) by auto
    from first_five_skip[OF diff pre, of ?cs]
    have skip: "first_five (replicate (nat counter) prev @ ?v # ?cs) = first_five (?v # ?cs)" .
    have step: "has_five_loop a prev counter (stone # rest) = has_five_loop a ?v 1 rest"
      using g diff by (rule has_five_step_diff)
    show ?thesis unfolding step rhs ih skip by (rule refl)
  qed
qed

lemma first_five_border:
  assumes "BORDER \<notin> set cs"
  shows "first_five (BORDER # cs) = first_five cs"
proof -
  have "\<not> (BORDER \<noteq> EMPTY \<and> 4 \<le> length cs \<and> (\<forall>y\<in>set (take 4 cs). y = BORDER))"
  proof
    assume a: "BORDER \<noteq> EMPTY \<and> 4 \<le> length cs \<and> (\<forall>y\<in>set (take 4 cs). y = BORDER)"
    then obtain x xs where cs: "cs = x # xs" by (cases cs) auto
    with a have "x = BORDER" by simp
    with cs assms show False by simp
  qed
  then show ?thesis unfolding first_five.simps(2) by (rule if_not_P)
qed

lemma first_five_mem: "first_five cs = EMPTY \<or> first_five cs \<in> set cs"
  by (induction cs) auto

lemma streak_at_Cons: "streak_at (x # xs) (Suc i) = streak_at xs i"
  by (simp add: streak_at_def add.commute)

lemma streak_at_0:
  "streak_at (x # xs) 0 \<longleftrightarrow> x \<noteq> EMPTY \<and> 4 \<le> length xs \<and> (\<forall>y\<in>set (take 4 xs). y = x)"
proof
  assume s: "streak_at (x # xs) 0"
  then have len: "4 \<le> length xs" and x: "x \<noteq> EMPTY"
    and eq: "\<forall>k<5. (x # xs) ! k = x" by (simp_all add: streak_at_def)
  have "y = x" if "y \<in> set (take 4 xs)" for y
  proof -
    from that obtain j where j: "j < length (take 4 xs)" "take 4 xs ! j = y"
      by (auto simp: in_set_conv_nth)
    then have "Suc j < 5" by simp
    with eq have "(x # xs) ! Suc j = x" by blast
    with j show ?thesis by simp
  qed
  with len x show "x \<noteq> EMPTY \<and> 4 \<le> length xs \<and> (\<forall>y\<in>set (take 4 xs). y = x)" by blast
next
  assume a: "x \<noteq> EMPTY \<and> 4 \<le> length xs \<and> (\<forall>y\<in>set (take 4 xs). y = x)"
  have "(x # xs) ! k = x" if "k < 5" for k
  proof (cases k)
    case 0
    then show ?thesis by simp
  next
    case (Suc j)
    with that a have j: "j < length (take 4 xs)" by simp
    then have "take 4 xs ! j \<in> set (take 4 xs)" by (rule nth_mem)
    with a j Suc show ?thesis by simp
  qed
  with a show "streak_at (x # xs) 0" by (simp add: streak_at_def)
qed

lemma first_five_streak: "first_five cs \<noteq> EMPTY \<longleftrightarrow> (\<exists>i. streak_at cs i)"
proof (induction cs)
  case Nil
  then show ?case by (simp add: streak_at_def)
next
  case (Cons x xs)
  show ?case
  proof (cases "streak_at (x # xs) 0")
    case True
    then have "first_five (x # xs) = x" "x \<noteq> EMPTY" by (simp_all add: streak_at_0)
    with True show ?thesis by auto
  next
    case False
    then have "first_five (x # xs) = first_five xs"
      unfolding first_five.simps(2) streak_at_0 by (rule if_not_P)
    moreover have "(\<exists>i. streak_at (x # xs) i) \<longleftrightarrow> (\<exists>i. streak_at xs i)"
    proof
      assume "\<exists>i. streak_at (x # xs) i"
      then obtain i where i: "streak_at (x # xs) i" by blast
      with False obtain j where "i = Suc j" by (cases i) auto
      with i show "\<exists>i. streak_at xs i" by (auto simp: streak_at_Cons)
    next
      assume "\<exists>i. streak_at xs i"
      then show "\<exists>i. streak_at (x # xs) i" using streak_at_Cons by blast
    qed
    ultimately show ?thesis using Cons.IH by simp
  qed
qed

lemma first_five_streak_color:
  assumes "streak_at cs i" and "\<forall>x\<in>set cs. x = EMPTY \<or> x = c"
  shows "first_five cs = c"
proof -
  from assms(1) have "first_five cs \<noteq> EMPTY" using first_five_streak by blast
  with first_five_mem[of cs] assms(2) show ?thesis by auto
qed

lemma first_found_append:
  "first_found (xs @ ys) = (if first_found xs \<noteq> EMPTY then first_found xs else first_found ys)"
  by (induction xs) auto

lemma first_found_empty: "first_found rs = EMPTY \<longleftrightarrow> (\<forall>r\<in>set rs. r = EMPTY)"
  by (induction rs) auto

lemma first_found_mem: "first_found rs = EMPTY \<or> first_found rs \<in> set rs"
  by (induction rs) auto

lemma has_five_on_board:
  assumes "shape_ok b" and "\<forall>p\<in>set l. on_board (bsize b) p"
  shows "has_five_in_list b l = Inr (first_five (colors_along b l))"
proof -
  note f = shape_fields[OF assms(1)]
  have rng: "0 \<le> p \<and> p < maxpoint b" if "p \<in> set l" for p
    using on_board_bounds[of "bsize b" p] assms(2) that f by auto
  then have "\<forall>p\<in>set l. 0 \<le> p \<and> p < int (length (board b))" using f by simp
  from has_five_loop_colors[OF this, of 1 BORDER]
  have h: "has_five_loop (board b) BORDER 1 l
          = Inr (first_five (replicate (nat 1) BORDER @ map (\<lambda>p. board b ! nat p) l))"
    by simp
  have r1: "replicate (nat 1) BORDER @ map (\<lambda>p. board b ! nat p) l
      = BORDER # map (\<lambda>p. board b ! nat p) l" by simp
  have nb: "BORDER \<notin> set (map (\<lambda>p. board b ! nat p) l)"
  proof
    assume "BORDER \<in> set (map (\<lambda>p. board b ! nat p) l)"
    then obtain p where p: "p \<in> set l" "board b ! nat p = BORDER" by auto
    with rng shape_cell[OF assms(1), of p] assms(2) show False by auto
  qed
  show ?thesis
    unfolding has_five_in_list_def colors_along_def h r1 first_five_border[OF nb] by (rule refl)
qed

lemma scan_lines_on_board:
  assumes "shape_ok b" and "points_on (bsize b) ls"
  shows "scan_lines b ls = Inr (first_found (map (\<lambda>l. first_five (colors_along b l)) ls))"
  using assms(2)
proof (induction ls)
  case Nil
  then show ?case by simp
next
  case (Cons l ls)
  then have "\<forall>p\<in>set l. on_board (bsize b) p" "points_on (bsize b) ls"
    by (simp_all add: points_on_def)
  with has_five_on_board[OF assms(1), of l] Cons.IH show ?case by simp
qed

lemma points_on_append: "points_on s (xs @ ys) \<longleftrightarrow> points_on s xs \<and> points_on s ys"
  by (auto simp: points_on_def)

lemma reachable_big_lines:
  assumes "b \<in> reachable M" and "5 \<le> bsize b"
  shows "\<exists>rs cs ds. rows b = Some rs \<and> cols b = Some cs \<and> diags b = Some ds
           \<and> points_on (bsize b) rs \<and> points_on (bsize b) cs \<and> points_on (bsize b) ds"
proof -
  from reachable_lines[OF assms(1)] obtain b0 where
    b0: "GoBoard_init M (bsize b) = Inr b0" "rows b = rows b0" "cols b = cols b0"
      "diags b = diags b0" by blast
  from init_fields(7)[OF b0(1)] have "bsize b \<le> M" .
  from init_big[OF assms(2) this] b0 show ?thesis by auto
qed

lemma detect_five_on_board:
  assumes "b \<in> reachable M" and "5 \<le> bsize b"
  shows "rows b \<noteq> None" "cols b \<noteq> None" "diags b \<noteq> None"
    "points_on (bsize b) (lines_of b)"
    "detect_five_in_a_row b
       = Inr (first_found (map (\<lambda>l. first_five (colors_along b l)) (lines_of b)))"
proof -
  from reachable_big_lines[OF assms] obtain rs cs ds where
    l: "rows b = Some rs" "cols b = Some cs" "diags b = Some ds"
      "points_on (bsize b) rs" "points_on (bsize b) cs" "points_on (bsize b) ds" by blast
  then show "rows b \<noteq> None" "cols b \<noteq> None" "diags b \<noteq> None" by simp_all
  show "points_on (bsize b) (lines_of b)" using l by (simp add: lines_of_def points_on_append)
  have sh: "shape_ok b" using assms(1) by (rule reachable_shape)
  let ?f = "\<lambda>l. first_five (colors_along b l)"
  note s = scan_lines_on_board[OF sh l(4)] scan_lines_on_board[OF sh l(5)]
    scan_lines_on_board[OF sh l(6)]
  show "detect_five_in_a_row b = Inr (first_found (map ?f (lines_of b)))"
    by (simp add: detect_five_in_a_row_def lines_of_def l(1,2,3) s first_found_append)
qed

text \<open>
  C6. On a reachable position of a board of size 5 or more, \<^verbatim>\<open>detect_five_in_a_row\<close>
  returns the first result other than EMPTY over the rows, then the columns, then the
  diagonals, where the result of a line is the colour of its first five consecutive equal
  cells that are not EMPTY; it returns EMPTY exactly when no line has five such cells.
  When some line has five consecutive BLACK cells and no WHITE stone is on the board, it
  returns BLACK.
\<close>

theorem detect_five_scan:
  assumes "b \<in> reachable M" and "5 \<le> bsize b"
  shows "rows b \<noteq> None \<and> cols b \<noteq> None \<and> diags b \<noteq> None
    \<and> detect_five_in_a_row b
          = Inr (first_found (map (\<lambda>l. first_five (colors_along b l)) (lines_of b)))
    \<and> (detect_five_in_a_row b = Inr EMPTY
          \<longleftrightarrow> (\<forall>l\<in>set (lines_of b). \<forall>i. \<not> streak_at (colors_along b l) i))
    \<and> (l \<in> set (lines_of b) \<and> streak_at (colors_along b l) i
          \<and> colors_along b l ! i = BLACK \<and> WHITE \<notin> set (board b)
        \<longrightarrow> detect_five_in_a_row b = Inr BLACK)"
proof -
  note d = detect_five_on_board[OF assms]
  let ?f = "\<lambda>l. first_five (colors_along b l)"
  have sh: "shape_ok b" using assms(1) by (rule reachable_shape)
  note f = shape_fields[OF sh]
  have none: "detect_five_in_a_row b = Inr EMPTY
          \<longleftrightarrow> (\<forall>l\<in>set (lines_of b). \<forall>i. \<not> streak_at (colors_along b l) i)"
    unfolding d(5) using first_five_streak by (auto simp: first_found_empty)
  have black: "detect_five_in_a_row b = Inr BLACK"
    if h: "l \<in> set (lines_of b) \<and> streak_at (colors_along b l) i
          \<and> colors_along b l ! i = BLACK \<and> WHITE \<notin> set (board b)"
  proof -
    have vals: "x = EMPTY \<or> x = BLACK" if l': "l' \<in> set (lines_of b)"
      and x: "x \<in> set (colors_along b l')" for l' x
    proof -
      from x obtain p where p: "p \<in> set l'" "x = board b ! nat p"
        by (auto simp: colors_along_def)
      with d(4) l' have ob: "on_board (bsize b) p" by (auto simp: points_on_def)
      from on_board_bounds[OF ob] f have rng: "0 \<le> p" "p < maxpoint b" by simp_all
      then have "nat p < length (board b)" using f by simp
      then have mem: "board b ! nat p \<in> set (board b)" by (rule nth_mem)
      with reachable_cells[OF assms(1)] have "board b ! nat p \<in> {EMPTY, BLACK, WHITE, BORDER}"
        unfolding cells_ok_def by blast
      moreover have "board b ! nat p \<noteq> BORDER" using shape_cell[OF sh rng] ob by simp
      moreover have "board b ! nat p \<noteq> WHITE" using mem h by auto
      ultimately show ?thesis using p by auto
    qed
    have res: "r = EMPTY \<or> r = BLACK" if "r \<in> set (map ?f (lines_of b))" for r
    proof -
      from that obtain l' where l': "l' \<in> set (lines_of b)" "r = ?f l'" by auto
      with first_five_mem[of "colors_along b l'"] vals show ?thesis by auto
    qed
    from h have "?f l \<noteq> EMPTY" using first_five_streak by blast
    with h have "\<not> (\<forall>r\<in>set (map ?f (lines_of b)). r = EMPTY)" by auto
    then have "first_found (map ?f (lines_of b)) \<noteq> EMPTY" by (simp add: first_found_empty)
    with first_found_mem[of "map ?f (lines_of b)"] res
    have "first_found (map ?f (lines_of b)) = BLACK" by blast
    with d(5) show ?thesis by simp
  qed
  from d(1,2,3,5) none black show ?thesis by blast
qed

lemma five5_position:
  "position 25 5
     [(Pt 13, BLACK), (PASS, WHITE), (Pt 14, BLACK), (PASS, WHITE), (Pt 15, BLACK),
      (PASS, WHITE), (Pt 16, BLACK), (PASS, WHITE), (Pt 17, BLACK)] = Inr five5"
  by code_simp

theorem detect_five_scan_witness:
  "five5 \<in> reachable 25 \<and> 5 \<le> bsize five5
   \<and> [13, 14, 15, 16, 17] \<in> set (lines_of five5)
   \<and> colors_along five5 [13, 14, 15, 16, 17] = [BLACK, BLACK, BLACK, BLACK, BLACK]
   \<and> streak_at (colors_along five5 [13, 14, 15, 16, 17]) 0
   \<and> colors_along five5 [13, 14, 15, 16, 17] ! 0 = BLACK
   \<and> WHITE \<notin> set (board five5)
   \<and> detect_five_in_a_row five5 = Inr BLACK
   \<and> rows five5 \<noteq> None \<and> cols five5 \<noteq> None \<and> diags five5 \<noteq> None
   \<and> detect_five_in_a_row five5
        = Inr (first_found (map (\<lambda>l. first_five (colors_along five5 l)) (lines_of five5)))"
proof -
  have r: "five5 \<in> reachable 25" using five5_position by (rule position_reachable)
  have s: "5 \<le> bsize five5" by code_simp
  have l: "[13, 14, 15, 16, 17] \<in> set (lines_of five5)" by code_simp
  have c: "colors_along five5 [13, 14, 15, 16, 17] = [BLACK, BLACK, BLACK, BLACK, BLACK]"
    by code_simp
  have st: "streak_at (colors_along five5 [13, 14, 15, 16, 17]) 0"
    unfolding c by (simp add: streak_at_0 color_defs)
  have b0: "colors_along five5 [13, 14, 15, 16, 17] ! 0 = BLACK" unfolding c by simp
  have w: "WHITE \<notin> set (board five5)" by code_simp
  note t = detect_five_scan[OF r s, of "[13, 14, 15, 16, 17]" 0]
  from t l st b0 w have d: "detect_five_in_a_row five5 = Inr BLACK" by blast
  from t d r s l c st b0 w show ?thesis by blast
qed

section \<open>Blocking a four\<close>

lemma block_loop_subset:
  assumes "block_open_four_loop b color xs ml = Inr res"
  shows "set ml \<subseteq> set res"
    and "\<forall>i\<in>set xs. \<exists>ms. BlockOpenFour_at b color i = Inr ms \<and> set ms \<subseteq> set res"
  using assms
proof (induction xs arbitrary: ml)
  case Nil
  { case 1 then show ?case by simp }
  { case 2 then show ?case by simp }
next
  case (Cons i xs)
  { case 1
    then obtain ms where ms: "BlockOpenFour_at b color i = Inr ms"
      "block_open_four_loop b color xs (ml @ ms) = Inr res"
      by (auto split: sum.splits)
    from Cons.IH(1)[OF ms(2)] show ?case by simp }
  { case 2
    then obtain ms where ms: "BlockOpenFour_at b color i = Inr ms"
      "block_open_four_loop b color xs (ml @ ms) = Inr res"
      by (auto split: sum.splits)
    from Cons.IH(1)[OF ms(2)] Cons.IH(2)[OF ms(2)] ms(1) show ?case by auto }
qed

lemma BlockOpenFour_at_parts:
  assumes "BlockOpenFour_at b color i = Inr ms"
  obtains rowc rowsp rd rs1 rs2 colc colsp cd cs1 cs2 d1c d1s d1 ds1 ds2 d2c d2s d2 d21 d22
           m1 m2 m3 m4 rest
  where "checkrow2 b i color = Inr (rowc, rowsp, rd, rs1, rs2)"
    and "checkcol2 b i color = Inr (colc, colsp, cd, cs1, cs2)"
    and "checkd12 b i color = Inr (d1c, d1s, d1, ds1, ds2)"
    and "checkd22 b i color = Inr (d2c, d2s, d2, d21, d22)"
    and "(if rowc = 4 \<and> rowsp = 1 then row_one_sided (board b) i rd else Inr []) = Inr m1"
    and "(if colc = 4 \<and> colsp = 1 then one_sided (board b) i (5 * NS b) cd else Inr []) = Inr m2"
    and "(if d1c = 4 \<and> d1s = 1 then one_sided (board b) i (5 * (NS b + 1)) d1 else Inr []) = Inr m3"
    and "(if d2c = 4 \<and> d2s = 1 then one_sided (board b) i (5 * (NS b - 1)) d2 else Inr []) = Inr m4"
    and "ms = m1 @ m2 @ m3 @ m4 @ rest"
proof -
  note d = BlockOpenFour_at_def
  obtain r where r: "checkrow2 b i color = Inr r"
    using assms by (cases "checkrow2 b i color") (simp_all add: d)
  obtain rowc rowsp rd rs1 rs2 where r': "r = (rowc, rowsp, rd, rs1, rs2)" by (cases r)
  obtain c where c: "checkcol2 b i color = Inr c"
    using assms r r' by (cases "checkcol2 b i color") (simp_all add: d)
  obtain colc colsp cd cs1 cs2 where c': "c = (colc, colsp, cd, cs1, cs2)" by (cases c)
  obtain e where e: "checkd12 b i color = Inr e"
    using assms r r' c c' by (cases "checkd12 b i color") (simp_all add: d)
  obtain d1c d1s d1 ds1 ds2 where e': "e = (d1c, d1s, d1, ds1, ds2)" by (cases e)
  obtain f where f: "checkd22 b i color = Inr f"
    using assms r r' c c' e e' by (cases "checkd22 b i color") (simp_all add: d)
  obtain d2c d2s d2 d21 d22 where f': "f = (d2c, d2s, d2, d21, d22)" by (cases f)
  note p = r[unfolded r'] c[unfolded c'] e[unfolded e'] f[unfolded f']
  let ?x1 = "if rowc = 4 \<and> rowsp = 1 then row_one_sided (board b) i rd else Inr []"
  let ?x2 = "if colc = 4 \<and> colsp = 1 then one_sided (board b) i (5 * NS b) cd else Inr []"
  let ?x3 = "if d1c = 4 \<and> d1s = 1 then one_sided (board b) i (5 * (NS b + 1)) d1 else Inr []"
  let ?x4 = "if d2c = 4 \<and> d2s = 1 then one_sided (board b) i (5 * (NS b - 1)) d2 else Inr []"
  have unf: "BlockOpenFour_at b color i =
     (case ?x1 of Inl e \<Rightarrow> Inl e | Inr m1 \<Rightarrow>
     (case ?x2 of Inl e \<Rightarrow> Inl e | Inr m2 \<Rightarrow>
     (case ?x3 of Inl e \<Rightarrow> Inl e | Inr m3 \<Rightarrow>
     (case ?x4 of Inl e \<Rightarrow> Inl e | Inr m4 \<Rightarrow>
        Inr (m1 @ m2 @ m3 @ m4
             @ (if rowc = 4 \<and> rowsp = 2 then [i] else [])
             @ (if colc = 4 \<and> colsp = 2 then [i] else [])
             @ (if d1c = 4 \<and> d1s = 2 then [i] else [])
             @ (if d2c = 4 \<and> d2s = 2 then [i] else [])
             @ (if rowc = 4 \<and> rowsp = 2 \<and> rd = 0 then [rs1, rs2] else [])
             @ (if colc = 4 \<and> colsp = 2 \<and> cd = 0 then [cs1, cs2] else [])
             @ (if d1c = 4 \<and> d1s = 2 \<and> d1 = 0 then [ds1, ds2] else [])
             @ (if d2c = 4 \<and> d2s = 2 \<and> d2 = 0 then [d21, d22] else []))))))"
    unfolding d by (simp only: p sum.case prod.case)
  obtain m1 where m1: "?x1 = Inr m1"
    using assms unfolding unf by (cases ?x1) (simp_all only: sum.case sum.distinct)
  obtain m2 where m2: "?x2 = Inr m2"
    using assms unfolding unf m1 by (cases ?x2) (simp_all only: sum.case sum.distinct)
  obtain m3 where m3: "?x3 = Inr m3"
    using assms unfolding unf m1 m2 by (cases ?x3) (simp_all only: sum.case sum.distinct)
  obtain m4 where m4: "?x4 = Inr m4"
    using assms unfolding unf m1 m2 m3 by (cases ?x4) (simp_all only: sum.case sum.distinct)
  have "ms = m1 @ m2 @ m3 @ m4
             @ ((if rowc = 4 \<and> rowsp = 2 then [i] else [])
             @ (if colc = 4 \<and> colsp = 2 then [i] else [])
             @ (if d1c = 4 \<and> d1s = 2 then [i] else [])
             @ (if d2c = 4 \<and> d2s = 2 then [i] else [])
             @ (if rowc = 4 \<and> rowsp = 2 \<and> rd = 0 then [rs1, rs2] else [])
             @ (if colc = 4 \<and> colsp = 2 \<and> cd = 0 then [cs1, cs2] else [])
             @ (if d1c = 4 \<and> d1s = 2 \<and> d1 = 0 then [ds1, ds2] else [])
             @ (if d2c = 4 \<and> d2s = 2 \<and> d2 = 0 then [d21, d22] else []))"
    using assms unfolding unf m1 m2 m3 m4 by (simp only: sum.case sum.inject append_assoc)
  with p m1 m2 m3 m4 show ?thesis by (rule that)
qed

lemma one_sided_mem:
  assumes "one_sided a i off d = Inr m" and "d = 1 \<or> d = -1"
    and "get a (i + d * off) = Inr EMPTY"
  shows "i \<in> set m \<and> i + d * off \<in> set m"
  using assms by (auto simp: one_sided_def EMPTY_def split: if_splits)

lemma row_one_sided_mem:
  assumes "row_one_sided a i 1 = Inr m" and "get a (i + 5) = Inr EMPTY"
  shows "i \<in> set m \<and> i + 5 \<in> set m"
  using assms by (auto simp: row_one_sided_def EMPTY_def)

lemma one_sided_flag_zero:
  "row_one_sided a i 0 = Inr []" "one_sided a i off 0 = Inr []"
  by (simp_all add: row_one_sided_def one_sided_def)

text \<open>
  The branches of the first sub-case that append the cell they test. Let
  \<^verbatim>\<open>BlockOpenFour\<close> return, and let the extended probe at an empty point \<open>i\<close> give, on
  some axis, the count 4, one open end and the flag \<open>d\<close>, where \<open>d\<close> is 1, or \<open>d\<close> is
  -1 and the axis is not the row. If the cell five strides from \<open>i\<close> in the sense of
  \<open>d\<close> is EMPTY, the result contains \<open>i\<close> and that cell.
\<close>

lemma block_open_four_branches:
  assumes "BlockOpenFour b = Inr res"
    and "i \<in> set (where1d_eq (board b) EMPTY)"
    and "probe2_on b ax i (WHITE + BLACK - current_player b) = Inr (4, 1, d, s1, s2)"
    and "d = 1 \<or> (d = -1 \<and> ax \<noteq> Row)"
    and "get (board b) (i + d * (5 * stride b ax)) = Inr EMPTY"
  shows "i \<in> set res \<and> i + d * (5 * stride b ax) \<in> set res"
proof -
  let ?color = "WHITE + BLACK - current_player b"
  from assms(1) obtain ml where
    ml: "block_open_four_loop b ?color (where1d_eq (board b) EMPTY) [] = Inr ml"
    and res: "res = remdups ml"
    by (auto simp: BlockOpenFour_def split: sum.splits)
  from block_loop_subset(2)[OF ml] assms(2) obtain ms where
    ms: "BlockOpenFour_at b ?color i = Inr ms" "set ms \<subseteq> set ml" by blast
  from ms(1) obtain rowc rowsp rd rs1 rs2 colc colsp cd cs1 cs2 d1c d1s d1 ds1 ds2
      d2c d2s d2 d21 d22 m1 m2 m3 m4 rest
    where p: "checkrow2 b i ?color = Inr (rowc, rowsp, rd, rs1, rs2)"
      "checkcol2 b i ?color = Inr (colc, colsp, cd, cs1, cs2)"
      "checkd12 b i ?color = Inr (d1c, d1s, d1, ds1, ds2)"
      "checkd22 b i ?color = Inr (d2c, d2s, d2, d21, d22)"
    and m: "(if rowc = 4 \<and> rowsp = 1 then row_one_sided (board b) i rd else Inr []) = Inr m1"
      "(if colc = 4 \<and> colsp = 1 then one_sided (board b) i (5 * NS b) cd else Inr []) = Inr m2"
      "(if d1c = 4 \<and> d1s = 1 then one_sided (board b) i (5 * (NS b + 1)) d1 else Inr []) = Inr m3"
      "(if d2c = 4 \<and> d2s = 1 then one_sided (board b) i (5 * (NS b - 1)) d2 else Inr []) = Inr m4"
    and all: "ms = m1 @ m2 @ m3 @ m4 @ rest"
    by (rule BlockOpenFour_at_parts)
  have "i \<in> set ms \<and> i + d * (5 * stride b ax) \<in> set ms"
  proof (cases ax)
    case Row
    with assms(3,4) p(1) have "rowc = 4" "rowsp = 1" "rd = 1" "d = 1" by simp_all
    with m(1) assms(5) Row have "row_one_sided (board b) i 1 = Inr m1"
      "get (board b) (i + 5) = Inr EMPTY" by simp_all
    from row_one_sided_mem[OF this] all Row \<open>d = 1\<close> show ?thesis by simp
  next
    case Col
    with assms(3) p(2) have "colc = 4" "colsp = 1" "cd = d" by simp_all
    with m(2) have "one_sided (board b) i (5 * NS b) d = Inr m2" by simp
    from one_sided_mem[OF this] assms(4,5) Col all show ?thesis by auto
  next
    case Diag1
    with assms(3) p(3) have "d1c = 4" "d1s = 1" "d1 = d" by simp_all
    with m(3) have "one_sided (board b) i (5 * (NS b + 1)) d = Inr m3" by simp
    from one_sided_mem[OF this] assms(4,5) Diag1 all show ?thesis by auto
  next
    case Diag2
    with assms(3) p(4) have "d2c = 4" "d2s = 1" "d2 = d" by simp_all
    with m(4) have "one_sided (board b) i (5 * (NS b - 1)) d = Inr m4" by simp
    from one_sided_mem[OF this] assms(4,5) Diag2 all show ?thesis by auto
  qed
  with ms(2) res show ?thesis by auto
qed

lemma gap5_position:
  "position 25 5
     [(PASS, BLACK), (Pt 19, WHITE), (PASS, BLACK), (Pt 21, WHITE), (PASS, BLACK),
      (Pt 22, WHITE)] = Inr gap5"
  by code_simp

lemma row7_position:
  "position 25 7
     [(Pt 10, BLACK), (Pt 11, WHITE), (PASS, BLACK), (Pt 12, WHITE), (PASS, BLACK),
      (Pt 13, WHITE)] = Inr row7"
  by code_simp

lemma up7_position:
  "position 25 7
     [(Pt 17, BLACK), (Pt 25, WHITE), (PASS, BLACK), (Pt 33, WHITE), (PASS, BLACK),
      (Pt 41, WHITE)] = Inr up7"
  by code_simp

lemma edge5_position:
  "position 25 5
     [(PASS, BLACK), (Pt 19, WHITE), (PASS, BLACK), (Pt 25, WHITE), (PASS, BLACK),
      (Pt 31, WHITE)] = Inr edge5"
  by code_simp

text \<open>
  With the flag 0 neither branch of the sub-case is taken. On \<open>gap5\<close> (size 5, WHITE on
  19, 21 and 22 of the third row, BLACK to move) the row probe for WHITE at the empty
  point 20 gives the count 4, one open end and the flag 0, the stones lying on both sides
  of 20, and \<^verbatim>\<open>BlockOpenFour\<close> returns no point.
\<close>

lemma block_open_four_split_run:
  "current_player gap5 = BLACK \<and> get (board gap5) 20 = Inr EMPTY
   \<and> checkrow2 gap5 20 WHITE = Inr (4, 1, 0, 23, - 1)
   \<and> BlockOpenFour gap5 = Inr []"
  by code_simp

lemma block_open_four_row_left:
  "checkrow2 row7 14 WHITE = Inr (4, 1, - 1, 15, - 1) \<and> current_player row7 = BLACK
   \<and> get (board row7) 14 = Inr EMPTY
   \<and> get (board row7) (14 - 5) = Inr EMPTY \<and> BlockOpenFour row7 = Inr [19, 14]"
  by code_simp

lemma block_open_four_column_up:
  "checkcol2 up7 49 WHITE = Inr (4, 1, - 1, 57, - 1) \<and> current_player up7 = BLACK
   \<and> NS up7 = 8 \<and> get (board up7) 49 = Inr EMPTY
   \<and> get (board up7) (49 - 5 * 8) = Inr EMPTY \<and> BlockOpenFour up7 = Inr [9, 49]"
  by code_simp

lemma block_open_four_index_error:
  "checkcol2 edge5 13 WHITE = Inr (4, 1, 1, - 1, 7) \<and> current_player edge5 = BLACK
   \<and> get (board edge5) 13 = Inr EMPTY
   \<and> length (board edge5) = 43 \<and> NS edge5 = 6
   \<and> BlockOpenFour edge5 = Inl IndexError"
  by code_simp

text \<open>
  C1 does not hold of the code. At an empty point where the opponent's probe gives a run
  of 4 with one open end, the result should hold the point and the cell five strides away
  in the sense of the flag, when that cell is EMPTY.

  On \<open>row7\<close> (size 7, BLACK on 10, WHITE on 11, 12 and 13 of the first row, BLACK to
  move) the row probe for WHITE at the empty point 14 gives the run of 4, one open end
  and the flag -1, the stones lying to the left of 14. The cell \<open>14 - 5 = 9\<close> is EMPTY.
  The row branch tests that cell and appends \<open>14 + 5 = 19\<close>: the result holds 14 and 19,
  and not 9. On \<open>up7\<close>, the same stones down the first column, the column branch tests
  and appends \<open>49 - 5 NS = 9\<close>, as its diagonal siblings do.

  On \<open>edge5\<close> (size 5, WHITE on 19, 25 and 31 of the first column, BLACK to move) the
  column probe at the empty point 13 gives the run of 4, one open end and the flag 1. The
  branch reads the cell \<open>13 + 5 NS = 43\<close> without a check, the array has 43 cells, and
  \<^verbatim>\<open>BlockOpenFour\<close> raises IndexError instead of returning a result.
\<close>

theorem block_open_four_row_slip:
  "row7 \<in> reachable 25 \<and> current_player row7 = BLACK
   \<and> get (board row7) 14 = Inr EMPTY
   \<and> checkrow2 row7 14 WHITE = Inr (4, 1, - 1, 15, - 1)
   \<and> get (board row7) (14 - 5) = Inr EMPTY
   \<and> map_sum id set (BlockOpenFour row7) = Inr {14, 14 + 5}
   \<and> 14 - 5 \<notin> {14, 14 + 5 :: int}
   \<and> up7 \<in> reachable 25 \<and> current_player up7 = BLACK
   \<and> get (board up7) 49 = Inr EMPTY
   \<and> checkcol2 up7 49 WHITE = Inr (4, 1, - 1, 57, - 1)
   \<and> get (board up7) (49 - 5 * NS up7) = Inr EMPTY
   \<and> map_sum id set (BlockOpenFour up7) = Inr {49, 49 - 5 * NS up7}
   \<and> edge5 \<in> reachable 25 \<and> current_player edge5 = BLACK
   \<and> get (board edge5) 13 = Inr EMPTY
   \<and> checkcol2 edge5 13 WHITE = Inr (4, 1, 1, - 1, 7)
   \<and> 13 + 5 * NS edge5 = int (length (board edge5))
   \<and> BlockOpenFour edge5 = Inl IndexError"
proof -
  note r = position_reachable[OF row7_position] position_reachable[OF up7_position]
    position_reachable[OF edge5_position]
  note a = block_open_four_row_left block_open_four_column_up block_open_four_index_error
  from a(1) have row: "map_sum id set (BlockOpenFour row7) = Inr {14, 14 + 5}" by auto
  from a(2) have col: "get (board up7) (49 - 5 * NS up7) = Inr EMPTY"
    "map_sum id set (BlockOpenFour up7) = Inr {49, 49 - 5 * NS up7}" by auto
  from a(3) have edge: "13 + 5 * NS edge5 = int (length (board edge5))" by simp
  from r a row col edge show ?thesis by simp
qed
section \<open>Rollouts\<close>

lemma sim_for_one_name_error:
  assumes "detect_five_in_a_row b = Inr r" and "r \<noteq> color" and "r \<noteq> opponent color"
    and "get_empty_points b \<noteq> []"
  shows "sim_for_one b color rnd k = Inl NameError"
  using assms by (simp add: sim_for_one_def generate_random_move_def Let_def)

lemma sim_for_one_rule_stuck:
  assumes "detect_five_in_a_row b = Inr r" and "r \<noteq> color" and "r \<noteq> opponent color"
    and "get_order b (current_player b) = Inr (Some moves)" and "moves \<noteq> []"
    and "\<And>k. play_move b (Pt (moves ! (rnd k mod length moves))) (current_player b)
               = Inr (False, b)"
  shows "sim_for_one_rule n b color rnd k = Inl RecursionError"
proof (induction n arbitrary: k)
  case 0
  show ?case by simp
next
  case (Suc n)
  show ?case
    using assms(1-5) assms(6)[of k] Suc[of "Suc k"]
    by (simp add: random_choice_def)
qed

lemma stuck7_position:
  "position 25 7
     [(Pt 10, BLACK), (Pt 11, WHITE), (Pt 19, BLACK), (Pt 12, WHITE), (PASS, BLACK),
      (Pt 13, WHITE)] = Inr stuck7"
  by code_simp

text \<open>
  C9 does not hold of the code. From the new board of size 5 the random rollout
  \<^verbatim>\<open>sim_for_one\<close> finds no five and an empty point, and raises NameError instead of
  playing a move, whatever the random draw. On \<open>stuck7\<close> (size 7, 44 empty points)
  \<^verbatim>\<open>get_order\<close> offers the points 19 and 14, and 19 holds a BLACK stone: when the
  draw picks 19 every time, \<^verbatim>\<open>play_move\<close> fails, the position does not change, and
  \<^verbatim>\<open>sim_for_one_rule\<close> calls itself until the recursion limit, however large it is.
\<close>

theorem rollouts_fail:
  "position 25 5 [] = Inr start5
   \<and> sim_for_one start5 BLACK rnd k = Inl NameError
   \<and> position 25 7
       [(Pt 10, BLACK), (Pt 11, WHITE), (Pt 19, BLACK), (Pt 12, WHITE), (PASS, BLACK),
        (Pt 13, WHITE)] = Inr stuck7
   \<and> get_order stuck7 (current_player stuck7) = Inr (Some [19, 14])
   \<and> get (board stuck7) 19 = Inr BLACK
   \<and> length (get_empty_points stuck7) = 44
   \<and> sim_for_one_rule n stuck7 BLACK (\<lambda>j. 0) k = Inl RecursionError"
proof -
  have d5: "detect_five_in_a_row start5 = Inr EMPTY" "EMPTY \<noteq> BLACK"
    "EMPTY \<noteq> opponent BLACK" "get_empty_points start5 \<noteq> []"
    by code_simp+
  have one: "sim_for_one start5 BLACK rnd k = Inl NameError"
    using d5 by (rule sim_for_one_name_error)
  have d7: "detect_five_in_a_row stuck7 = Inr EMPTY"
    "get_order stuck7 (current_player stuck7) = Inr (Some [19, 14])"
    "get (board stuck7) 19 = Inr BLACK" "length (get_empty_points stuck7) = 44"
    by code_simp+
  have pm: "play_move stuck7 (Pt ([19, 14] ! ((\<lambda>j. 0) k mod length [19, 14 :: int])))
      (current_player stuck7) = Inr (False, stuck7)" for k :: nat
    by code_simp
  have rule: "sim_for_one_rule n stuck7 BLACK (\<lambda>j. 0) k = Inl RecursionError"
    by (rule sim_for_one_rule_stuck[OF d7(1) d5(2,3) d7(2) _ pm]) simp
  from start5_position stuck7_position one d7(2,3,4) rule show ?thesis by simp
qed

section \<open>Scoring the candidates\<close>

lemma get_update_other:
  assumes "get a p = Inr v" and "v \<noteq> EMPTY" and "j < length a" and "a ! j = EMPTY"
  shows "get (a[j := c]) p = Inr v"
proof -
  let ?n = "int (length a)"
  from assms(1) consider "0 \<le> p" "p < ?n" "a ! nat p = v"
    | "- ?n \<le> p" "p < 0" "a ! nat (?n + p) = v"
    by (auto simp: get_def Let_def split: if_splits)
  then show ?thesis
  proof cases
    case 1
    with assms(2,4) have "nat p \<noteq> j" by auto
    with 1 show ?thesis by (simp add: get_def)
  next
    case 2
    with assms(2,4) have "nat (?n + p) \<noteq> j" by auto
    with 2 show ?thesis by (simp add: get_def Let_def)
  qed
qed

lemma play_move_keeps:
  assumes "play_move b m c = Inr (ok, b')" and "get (board b) p = Inr v" and "v \<noteq> EMPTY"
  shows "get (board b') p = Inr v"
proof -
  from play_move_board[OF assms(1)] consider "board b' = board b"
    | j where "j < length (board b)" "board b ! j = EMPTY" "board b' = (board b)[j := c]"
    by blast
  then show ?thesis
  proof cases
    case 1
    with assms(2) show ?thesis by simp
  next
    case 2
    from get_update_other[OF assms(2,3) 2(1,2)] 2(3) show ?thesis by simp
  qed
qed

lemma play_move_occupies:
  assumes "play_move b (Pt p) c = Inr (ok, b')"
  shows "is_black_white c \<and> (\<exists>v. get (board b') p = Inr v \<and> v \<noteq> EMPTY)"
proof -
  from assms have c: "is_black_white c" by (auto simp: play_move_def split: if_splits)
  from assms c obtain v where g: "get (board b) p = Inr v"
    by (auto simp: play_move_def split: sum.splits)
  show ?thesis
  proof (cases "v = EMPTY")
    case False
    with assms c g have "b' = b" by (simp add: play_move_def)
    with g False c show ?thesis by auto
  next
    case True
    with assms c g obtain a where a: "put (board b) p c = Inr a" "board b' = a"
      by (auto simp: play_move_def split: sum.splits)
    from g a(1) have "get a p = Inr c"
      by (auto simp: get_def put_def Let_def split: if_splits)
    with a(2) c show ?thesis by (auto simp: is_black_white_def color_defs)
  qed
qed

lemma play_move_refused:
  assumes "is_black_white c" and "get (board b) p = Inr v" and "v \<noteq> EMPTY"
  shows "play_move b (Pt p) c = Inr (False, b)"
  using assms by (simp add: play_move_def)

lemma sim_rule_cases:
  assumes "sim_for_one_rule (Suc n) b color rnd k = Inr (res, b', k')"
  shows "(b' = b \<and> k' = k \<and> settled b color res)
       \<or> (\<exists>mv ok b1. play_move b (Pt mv) (current_player b) = Inr (ok, b1)
             \<and> sim_for_one_rule n b1 color rnd (Suc k) = Inr (res, b', k'))"
proof -
  from assms obtain r where r: "detect_five_in_a_row b = Inr r"
    by (cases "detect_five_in_a_row b") simp_all
  show ?thesis
  proof (cases "r = color \<or> r = opponent color")
    case True
    with assms r show ?thesis by (auto simp: settled_def split: if_splits)
  next
    case False
    with assms r obtain g where g: "get_order b (current_player b) = Inr g"
      by (cases "get_order b (current_player b)") simp_all
    show ?thesis
    proof (cases g)
      case None
      with assms r False g show ?thesis by (auto simp: settled_def)
    next
      case (Some moves)
      with assms r False g obtain mv where mv: "random_choice moves (rnd k) = Inr mv"
        by (cases "random_choice moves (rnd k)") simp_all
      with assms r False g Some obtain ok b1 where
        "play_move b (Pt mv) (current_player b) = Inr (ok, b1)"
        by (cases "play_move b (Pt mv) (current_player b)") auto
      with assms r False g Some mv show ?thesis by auto
    qed
  qed
qed

lemma sim_rule_settles:
  assumes "sim_for_one_rule n b color rnd k = Inr (res, b', k')"
  shows "settled b' color res"
  using assms
proof (induction n arbitrary: b k)
  case 0
  then show ?case by simp
next
  case (Suc n)
  from sim_rule_cases[OF Suc.prems] Suc.IH show ?case by blast
qed

lemma sim_rule_keeps:
  assumes "sim_for_one_rule n b color rnd k = Inr (res, b', k')"
    and "get (board b) p = Inr v" and "v \<noteq> EMPTY"
  shows "get (board b') p = Inr v"
  using assms
proof (induction n arbitrary: b k)
  case 0
  then show ?case by simp
next
  case (Suc n)
  from sim_rule_cases[OF Suc.prems(1)] show ?case
  proof
    assume "b' = b \<and> k' = k \<and> settled b color res"
    with Suc.prems(2) show ?thesis by simp
  next
    assume "\<exists>mv ok b1. play_move b (Pt mv) (current_player b) = Inr (ok, b1)
             \<and> sim_for_one_rule n b1 color rnd (Suc k) = Inr (res, b', k')"
    then obtain mv ok b1 where s: "play_move b (Pt mv) (current_player b) = Inr (ok, b1)"
      "sim_for_one_rule n b1 color rnd (Suc k) = Inr (res, b', k')" by blast
    from play_move_keeps[OF s(1) Suc.prems(2,3)] have "get (board b1) p = Inr v" .
    from Suc.IH[OF s(2) this Suc.prems(3)] show ?thesis .
  qed
qed

lemma sim_rule_settled:
  assumes "settled b color res"
  shows "sim_for_one_rule (Suc n) b color rnd k = Inr (res, b, k)"
  using assms by (auto simp: settled_def split: if_splits)

lemma trials_rule_settled:
  assumes "settled temp color res"
    and "play_move temp (Pt mv) color = Inr (False, temp)"
  shows "trials_rule n (Suc d) temp mv color rnd k wins
           = Inr (wins + (if res = 1 then int n else 0), temp, k)"
proof (induction n arbitrary: wins)
  case 0
  show ?case by simp
next
  case (Suc n)
  show ?case
    using assms(2) sim_rule_settled[OF assms(1), of d rnd k] Suc[of "if res = 1 then wins + 1 else wins"]
    by simp
qed

lemma trials_rule_all_or_nothing:
  assumes "trials_rule n depth temp mv color rnd k 0 = Inr (wins, temp', k')"
  shows "wins = 0 \<or> wins = int n"
proof (cases n)
  case 0
  with assms show ?thesis by simp
next
  case (Suc m)
  from assms Suc obtain ok temp1 where
    p: "play_move temp (Pt mv) color = Inr (ok, temp1)"
    by (cases "play_move temp (Pt mv) color") auto
  from assms Suc p obtain win temp2 k1 where
    s: "sim_for_one_rule depth temp1 color rnd k = Inr (win, temp2, k1)"
    by (cases "sim_for_one_rule depth temp1 color rnd k") auto
  from assms Suc p s have
    rest: "trials_rule m depth temp2 mv color rnd k1 (if win = 1 then 1 else 0)
             = Inr (wins, temp', k')" by (cases "win = 1") simp_all
  from s obtain d where d: "depth = Suc d" by (cases depth) simp_all
  from play_move_occupies[OF p] obtain v where
    c: "is_black_white color" and v: "get (board temp1) mv = Inr v" "v \<noteq> EMPTY" by blast
  from sim_rule_keeps[OF s v] have "get (board temp2) mv = Inr v" .
  from play_move_refused[OF c this v(2)]
  have ref: "play_move temp2 (Pt mv) color = Inr (False, temp2)" .
  from trials_rule_settled[OF sim_rule_settles[OF s] ref, of m d rnd k1 "if win = 1 then 1 else 0"]
    rest d
  have "wins = (if win = 1 then 1 else 0) + (if win = 1 then int m else 0)" by simp
  with Suc show ?thesis by auto
qed

lemma candidates_rule_scores:
  assumes "candidates_loop True NN M depth b color rnd k xs score = Inr score'"
    and "\<forall>s\<in>set score. s = 0 \<or> s = 1"
  shows "\<forall>s\<in>set score'. s = 0 \<or> s = 1"
  using assms
proof (induction xs arbitrary: k score)
  case Nil
  then show ?case by simp
next
  case (Cons mv xs)
  from Cons.prems(1) obtain temp where t: "copy M b = Inr temp"
    by (cases "copy M b") simp_all
  from Cons.prems(1) t obtain wins temp' k' where
    w: "trials_rule (nat NN) depth temp mv color rnd k 0 = Inr (wins, temp', k')"
    by (cases "trials_rule (nat NN) depth temp mv color rnd k 0") auto
  from Cons.prems(1) t w have nz: "NN \<noteq> 0" and
    rest: "candidates_loop True NN M depth b color rnd k' xs (score @ [of_int wins / of_int NN])
             = Inr score'"
    by (auto split: if_splits)
  from trials_rule_all_or_nothing[OF w] have "wins = 0 \<or> wins = int (nat NN)" .
  then have "(of_int wins / of_int NN :: rat) = 0 \<or> (of_int wins / of_int NN :: rat) = 1"
  proof
    assume "wins = 0"
    then show ?thesis by simp
  next
    assume a: "wins = int (nat NN)"
    show ?thesis
    proof (cases "0 \<le> NN")
      case True
      with a nz show ?thesis by simp
    next
      case False
      with a show ?thesis by simp
    qed
  qed
  with Cons.prems(2) have "\<forall>s\<in>set (score @ [of_int wins / of_int NN]). s = 0 \<or> s = 1" by auto
  from Cons.IH[OF rest this] show ?case .
qed

lemma four5_position:
  "position 25 5
     [(Pt 13, BLACK), (PASS, WHITE), (Pt 14, BLACK), (PASS, WHITE), (Pt 15, BLACK),
      (PASS, WHITE), (Pt 16, BLACK), (PASS, WHITE)] = Inr four5"
  by code_simp

lemma simulation_random_start5:
  "simulation 10 25 depth start5 BLACK ''random'' rnd = Inl NameError"
proof -
  have e5: "get_empty_points start5 =
      [7, 8, 9, 10, 11, 13, 14, 15, 16, 17, 19, 20, 21, 22, 23, 25, 26, 27, 28, 29,
       31, 32, 33, 34, 35]" by code_simp
  have cp: "copy 25 start5 = Inr start5" by code_simp
  have pm: "play_move start5 (Pt 7) BLACK = Inr (True, taken5)" by code_simp
  have d: "detect_five_in_a_row taken5 = Inr EMPTY" "EMPTY \<noteq> BLACK"
    "EMPTY \<noteq> opponent BLACK" "get_empty_points taken5 \<noteq> []" by code_simp+
  have sim: "sim_for_one taken5 BLACK rnd 0 = Inl NameError"
    using d by (rule sim_for_one_name_error)
  have t: "trials_random (Suc 9) start5 7 BLACK rnd 0 0 = Inl NameError"
    by (simp only: trials_random.simps pm sim sum.case prod.case)
  have ten: "(10::nat) = Suc 9" by simp
  have "trials_random 10 start5 7 BLACK rnd 0 0 = Inl NameError"
    by (subst ten) (rule t)
  then have "candidates_loop False 10 25 depth start5 BLACK rnd 0 (get_empty_points start5) []
      = Inl NameError"
    unfolding e5 by (simp add: cp)
  then show ?thesis by (simp add: simulation_def simulation_scores_def)
qed

text \<open>
  C2 does not hold of the code. With the policy \<^verbatim>\<open>random\<close> on the new board of size 5
  (ten trials), \<^verbatim>\<open>simulation\<close> raises NameError in the first trial of the first
  candidate and scores nothing. With the policy \<^verbatim>\<open>rule_based\<close> the board is copied once
  per candidate, before the trials, so every trial after the first starts on the board the
  first rollout ended on and repeats its result: whenever scores are returned, each of them
  is 0 or 1, whatever the number of trials and the random draws.
\<close>

theorem simulation_trials_share_board:
  "simulation 10 25 depth start5 BLACK ''random'' rnd = Inl NameError
   \<and> (simulation_scores NN M depth b color ''rule_based'' rnd = Inr (Some (moves, score))
        \<longrightarrow> (\<forall>s\<in>set score. s = 0 \<or> s = 1))"
proof -
  have "\<forall>s\<in>set score. s = 0 \<or> s = 1"
    if a: "simulation_scores NN M depth b color ''rule_based'' rnd = Inr (Some (moves, score))"
  proof -
    from a obtain g where g: "get_order b color = Inr g"
      by (cases "get_order b color") (simp_all add: simulation_scores_def)
    from a g obtain ms where ms: "g = Some ms"
      by (cases g) (simp_all add: simulation_scores_def)
    from a g ms have "candidates_loop True NN M depth b color rnd 0 ms [] = Inr score"
      by (auto simp: simulation_scores_def split: sum.splits)
    from candidates_rule_scores[OF this] show ?thesis by simp
  qed
  with simulation_random_start5 show ?thesis by blast
qed

theorem simulation_trials_share_board_witness:
  "position 25 5
     [(Pt 13, BLACK), (PASS, WHITE), (Pt 14, BLACK), (PASS, WHITE), (Pt 15, BLACK),
      (PASS, WHITE), (Pt 16, BLACK), (PASS, WHITE)] = Inr four5
   \<and> simulation_scores 10 25 100 four5 BLACK ''rule_based'' (\<lambda>j. 0) = Inr (Some ([17], [1]))
   \<and> simulation 10 25 100 start5 BLACK ''random'' (\<lambda>j. 0) = Inl NameError
   \<and> (\<exists>s. s \<in> set [1 :: rat] \<and> (s = 0 \<or> s = 1))"
proof -
  have sc: "simulation_scores 10 25 100 four5 BLACK ''rule_based'' (\<lambda>j. 0)
      = Inr (Some ([17], [1]))" by code_simp
  from simulation_trials_share_board[of 100 "\<lambda>j. 0" 10 25 four5 BLACK "[17]" "[1]"] sc
    four5_position
  show ?thesis by simp
qed

end
